theory Spec2Isabelle
  imports Main "HOL-Library.Multiset" "HOL-Library.AList"
begin

section \<open>The preempt action of the scheduler\<close>

text \<open>
  A shallow embedding of \<^verbatim>\<open>pkg/scheduler/actions/preempt/preempt.go\<close>: the functions
  \<^verbatim>\<open>validateVictims\<close>, \<^verbatim>\<open>preempt\<close> and \<^verbatim>\<open>preemptAction.Execute\<close>.
  The packages \<^verbatim>\<open>api\<close>, \<^verbatim>\<open>util\<close> and \<^verbatim>\<open>framework\<close> that they call are not part of the
  sources at hand; what is needed of them is modelled from the specification, and each such
  definition says so. Logging (\<^verbatim>\<open>klog\<close>) and metrics do not influence the control flow and
  are left out.
\<close>

subsection \<open>Resource vectors\<close>

text \<open>
  Modelled from the spec: \<^verbatim>\<open>api.Resource\<close> is missing. A resource vector maps
  resource-dimension names to non-negative amounts; a dimension that is absent counts as zero.
  \<open>LessEqual\<close> compares every dimension, \<open>Add\<close> and \<open>Sub\<close> work pairwise over the union of
  the dimensions of both operands.
\<close>

type_synonym resource = "(string \<times> nat) list"

definition amount :: "resource \<Rightarrow> string \<Rightarrow> nat" where
  "amount r d = (case map_of r d of None \<Rightarrow> 0 | Some v \<Rightarrow> v)"

definition dims :: "resource \<Rightarrow> resource \<Rightarrow> string list" where
  "dims l r = remdups (map fst l @ map fst r)"

definition LessEqual :: "resource \<Rightarrow> resource \<Rightarrow> bool" where
  "LessEqual l r = list_all (\<lambda>d. amount l d \<le> amount r d) (map fst l)"

definition Add :: "resource \<Rightarrow> resource \<Rightarrow> resource" where
  "Add l r = map (\<lambda>d. (d, amount l d + amount r d)) (dims l r)"

definition Sub :: "resource \<Rightarrow> resource \<Rightarrow> resource" where
  "Sub l r = map (\<lambda>d. (d, amount l d - amount r d)) (dims l r)"

subsection \<open>Tasks, jobs, nodes, queues\<close>

text \<open>
  Modelled from the spec: the declarations of \<^verbatim>\<open>api.TaskInfo\<close>, \<^verbatim>\<open>api.JobInfo\<close>,
  \<^verbatim>\<open>api.NodeInfo\<close> and \<^verbatim>\<open>api.QueueInfo\<close> are missing; the fields are those that
  \<^verbatim>\<open>preempt.go\<close> reads and the spec names. A job owns its tasks; \<^verbatim>\<open>job.TaskStatusIndex[s]\<close> is the part of them in status
  \<open>s\<close>. A node carries its allocatable vector, the tasks placed on it and its future-idle
  projection.
\<close>

datatype TaskStatus = Pending | Pipelined | Bound | Running | Evicted

datatype PodGroupPhase = PodGroupPending | PodGroupRunning | PodGroupUnknown | PodGroupInqueue

record TaskInfo =
  UID :: string
  Job :: string
  NodeName :: string
  Status :: TaskStatus
  Priority :: int
  Resreq :: resource
  InitResreq :: resource

record JobInfo =
  JobUID :: string
  Queue :: string
  Phase :: PodGroupPhase
  JobPriority :: int
  MinAvailable :: nat
  JobTasks :: "TaskInfo list"

record NodeInfo =
  Name :: string
  Allocatable :: resource
  Tasks :: "TaskInfo list"
  FutureIdle :: resource

record QueueInfo =
  QueueUID :: string
  QueueName :: string

definition TaskStatusIndex :: "JobInfo \<Rightarrow> TaskStatus \<Rightarrow> TaskInfo list" where
  "TaskStatusIndex job s = filter (\<lambda>t. Status t = s) (JobTasks job)"

text \<open>\<^verbatim>\<open>task.Clone()\<close>: tasks are values here, a clone is the task itself.\<close>

definition Clone :: "TaskInfo \<Rightarrow> TaskInfo" where
  "Clone t = t"

subsection \<open>validateVictims\<close>

datatype error =
  NoVictims
  | NotEnoughResources resource resource
  | NotPlaced
  | InsufficientCapacity
  | NodeNotFound

definition validateVictims :: "TaskInfo \<Rightarrow> NodeInfo \<Rightarrow> TaskInfo list \<Rightarrow> error option" where
  "validateVictims preemptor node victims =
     (if length victims = 0 then Some NoVictims
      else
        let futureIdle = foldl (\<lambda>f victim. Add f (Resreq victim)) (FutureIdle node) victims
        in if \<not> LessEqual (InitResreq preemptor) futureIdle
           then Some (NotEnoughResources (InitResreq preemptor) futureIdle)
           else None)"

subsection \<open>The ordered candidate queue\<close>

text \<open>
  Modelled from the spec: \<^verbatim>\<open>util.PriorityQueue\<close> is missing. The queue holds its items in
  a list; \<open>Push\<close> inserts, and \<open>Pop\<close> on a non-empty queue removes and returns an item
  that the comparator ranks first: scanning the items, the candidate is replaced whenever a
  later item is before it. The comparator given to \<^verbatim>\<open>NewPriorityQueue\<close> is passed to
  \<open>Pop\<close>. Every caller tests \<^verbatim>\<open>Empty()\<close> before it pops; here that test is the match
  on the empty list, and \<open>Pop\<close> takes the first item and the other items of a non-empty
  queue.
\<close>

definition Push :: "'a list \<Rightarrow> 'a \<Rightarrow> 'a list" where
  "Push q it = q @ [it]"

fun Pop :: "('a \<Rightarrow> 'a \<Rightarrow> bool) \<Rightarrow> 'a \<Rightarrow> 'a list \<Rightarrow> 'a \<times> 'a list" where
  "Pop lessFn x [] = (x, [])"
| "Pop lessFn x (y # ys) =
     (if lessFn y x
      then (case Pop lessFn y ys of (m, r) \<Rightarrow> (m, x # r))
      else (case Pop lessFn x ys of (m, r) \<Rightarrow> (m, y # r)))"

subsection \<open>The session and the statement\<close>

text \<open>
  Modelled from the spec: the package \<^verbatim>\<open>framework\<close> is missing. The session holds the
  snapshot of one scheduling cycle. Jobs and nodes are objects that the Go code shares by
  pointer, so each is a store from keys to values together with the list of the keys in use
  (\<^verbatim>\<open>ssn.Jobs\<close>, \<^verbatim>\<open>ssn.Nodes\<close>); a pointer is a key. \<open>committed\<close> is what committed
  statements have handed to the cluster. \<open>calls\<close> records, in order, every call made on
  a statement and every pop and push of a preemptor; no function reads it.
\<close>

datatype operation = OpEvict TaskInfo string | OpPipeline TaskInfo string

datatype call =
  CallEvict TaskInfo "error option"
  | CallPipeline TaskInfo string "error option"
  | CallCommit
  | CallDiscard
  | PopJob string
  | PushJob string
  | PopTask TaskInfo

record Session =
  JobKeys :: "string list"
  Jobs :: "string \<Rightarrow> JobInfo"
  NodeKeys :: "string list"
  Nodes :: "string \<Rightarrow> NodeInfo"
  Queues :: "(string \<times> QueueInfo) list"
  committed :: "operation list"
  calls :: "call list"

text \<open>
  Modelled from the spec: \<^verbatim>\<open>framework.Statement\<close> is missing. A statement is the log of
  its operations; it keeps the jobs and nodes as they were when it was opened, which is
  what \<open>Discard\<close> puts back. \<open>Commit\<close> hands the logged operations to the cluster in
  log order.
\<close>

record Statement =
  operations :: "operation list"
  openJobs :: "string \<Rightarrow> JobInfo"
  openNodes :: "string \<Rightarrow> NodeInfo"

definition NewStatement :: "Session \<Rightarrow> Statement" where
  "NewStatement ssn = \<lparr>operations = [], openJobs = Jobs ssn, openNodes = Nodes ssn\<rparr>"

text \<open>
  Modelled from the spec: \<^verbatim>\<open>Statement.Evict\<close> is missing. \<open>Evict\<close> removes the task from
  its node, adds the task's resources to the node's future-idle projection and logs the
  operation; it fails, changing nothing, if the task is not placed on its node.
\<close>

definition Evict ::
  "Session \<Rightarrow> Statement \<Rightarrow> TaskInfo \<Rightarrow> string \<Rightarrow> error option \<times> Session \<times> Statement" where
  "Evict ssn stmt reclaimee reason =
     (let k = NodeName reclaimee; node = Nodes ssn k
      in if k \<in> set (NodeKeys ssn) \<and> list_ex (\<lambda>t. UID t = UID reclaimee) (Tasks node)
         then (None,
               ssn\<lparr>Nodes := (Nodes ssn)(k := node
                      \<lparr>Tasks := filter (\<lambda>t. UID t \<noteq> UID reclaimee) (Tasks node),
                       FutureIdle := Add (FutureIdle node) (Resreq reclaimee)\<rparr>),
                   calls := calls ssn @ [CallEvict reclaimee None]\<rparr>,
               stmt\<lparr>operations := operations stmt @ [OpEvict reclaimee reason]\<rparr>)
         else (Some NotPlaced,
               ssn\<lparr>calls := calls ssn @ [CallEvict reclaimee (Some NotPlaced)]\<rparr>,
               stmt))"

text \<open>A task of a job changes its status.\<close>

definition set_status :: "string \<Rightarrow> TaskStatus \<Rightarrow> JobInfo \<Rightarrow> JobInfo" where
  "set_status uid s job =
     job\<lparr>JobTasks := map (\<lambda>t. if UID t = uid then t\<lparr>Status := s\<rparr> else t) (JobTasks job)\<rparr>"

text \<open>
  Modelled from the spec: \<^verbatim>\<open>Statement.Pipeline\<close> is missing. \<open>Pipeline\<close> places the task
  on the node speculatively: the task becomes \<open>Pipelined\<close> in its job, the node's
  future-idle projection is debited by the task's request, the operation is logged. It
  fails, changing nothing, if the node is unknown or its projected capacity is
  insufficient.
\<close>

definition Pipeline ::
  "Session \<Rightarrow> Statement \<Rightarrow> TaskInfo \<Rightarrow> string \<Rightarrow> error option \<times> Session \<times> Statement" where
  "Pipeline ssn stmt task hostname =
     (let node = Nodes ssn hostname
      in if hostname \<notin> set (NodeKeys ssn)
         then (Some NodeNotFound,
               ssn\<lparr>calls := calls ssn @ [CallPipeline task hostname (Some NodeNotFound)]\<rparr>,
               stmt)
         else if \<not> LessEqual (InitResreq task) (FutureIdle node)
         then (Some InsufficientCapacity,
               ssn\<lparr>calls := calls ssn @ [CallPipeline task hostname (Some InsufficientCapacity)]\<rparr>,
               stmt)
         else (None,
               ssn\<lparr>Jobs := (if Job task \<in> set (JobKeys ssn)
                             then (Jobs ssn)(Job task := set_status (UID task) Pipelined (Jobs ssn (Job task)))
                             else Jobs ssn),
                   Nodes := (Nodes ssn)(hostname := node
                      \<lparr>Tasks := Tasks node @ [task\<lparr>Status := Pipelined, NodeName := hostname\<rparr>],
                       FutureIdle := Sub (FutureIdle node) (InitResreq task)\<rparr>),
                   calls := calls ssn @ [CallPipeline task hostname None]\<rparr>,
               stmt\<lparr>operations := operations stmt @ [OpPipeline task hostname]\<rparr>))"

definition Commit :: "Session \<Rightarrow> Statement \<Rightarrow> Session" where
  "Commit ssn stmt =
     ssn\<lparr>committed := committed ssn @ operations stmt, calls := calls ssn @ [CallCommit]\<rparr>"

definition Discard :: "Session \<Rightarrow> Statement \<Rightarrow> Session" where
  "Discard ssn stmt =
     ssn\<lparr>Jobs := openJobs stmt, Nodes := openNodes stmt, calls := calls ssn @ [CallDiscard]\<rparr>"

subsection \<open>The pluggable policies\<close>

text \<open>
  The callbacks that the session offers (\<^verbatim>\<open>ssn.JobOrderFn\<close>, \<^verbatim>\<open>ssn.TaskOrderFn\<close>,
  \<^verbatim>\<open>ssn.JobValid\<close>, \<^verbatim>\<open>ssn.JobPipelined\<close>, \<^verbatim>\<open>ssn.PredicateFn\<close>, the node scoring
  functions and \<^verbatim>\<open>ssn.Preemptable\<close>) are parameters. \<open>JobValid\<close> returns no result
  (\<^verbatim>\<open>nil\<close>) or a result with its \<open>Pass\<close> flag. \<open>NodeOrderFn\<close> stands for the score that
  the batch, map and reduce scoring callbacks give a node together.
\<close>

record ValidateResult =
  Pass :: bool
  Reason :: string

record Callbacks =
  JobOrderFn :: "JobInfo \<Rightarrow> JobInfo \<Rightarrow> bool"
  TaskOrderFn :: "TaskInfo \<Rightarrow> TaskInfo \<Rightarrow> bool"
  JobValid :: "JobInfo \<Rightarrow> ValidateResult option"
  JobPipelined :: "JobInfo \<Rightarrow> bool"
  PredicateFn :: "TaskInfo \<Rightarrow> NodeInfo \<Rightarrow> bool"
  NodeOrderFn :: "TaskInfo \<Rightarrow> NodeInfo \<Rightarrow> int"
  Preemptable :: "Session \<Rightarrow> TaskInfo \<Rightarrow> TaskInfo list \<Rightarrow> TaskInfo list"

subsection \<open>The node candidate pipeline\<close>

text \<open>
  Modelled from the spec: the package \<^verbatim>\<open>util\<close> is missing. The nodes that the predicate
  accepts are scored and sorted by descending score, stably. The result is a list of node
  pointers, that is of keys of the node store.
\<close>

definition GetNodeList :: "Session \<Rightarrow> string list" where
  "GetNodeList ssn = NodeKeys ssn"

definition PredicateNodes :: "Callbacks \<Rightarrow> Session \<Rightarrow> TaskInfo \<Rightarrow> string list \<Rightarrow> string list" where
  "PredicateNodes cb ssn task nodes = filter (\<lambda>k. PredicateFn cb task (Nodes ssn k)) nodes"

definition PrioritizeNodes ::
  "Callbacks \<Rightarrow> Session \<Rightarrow> TaskInfo \<Rightarrow> string list \<Rightarrow> (int \<times> string) list" where
  "PrioritizeNodes cb ssn task nodes = map (\<lambda>k. (NodeOrderFn cb task (Nodes ssn k), k)) nodes"

definition SortNodes :: "(int \<times> string) list \<Rightarrow> string list" where
  "SortNodes nodeScores = map snd (sort_key (\<lambda>(score, k). - score) nodeScores)"

definition selectedNodes :: "Callbacks \<Rightarrow> Session \<Rightarrow> TaskInfo \<Rightarrow> string list" where
  "selectedNodes cb ssn preemptor =
     SortNodes (PrioritizeNodes cb ssn preemptor (PredicateNodes cb ssn preemptor (GetNodeList ssn)))"

subsection \<open>preempt\<close>

text \<open>
  The comparator of the victims queue (lines 216 to 218): the negation of the task order.
\<close>

definition victimsLessFn :: "Callbacks \<Rightarrow> TaskInfo \<Rightarrow> TaskInfo \<Rightarrow> bool" where
  "victimsLessFn cb l r = (\<not> TaskOrderFn cb l r)"

lemma Pop_length: "Pop lessFn x xs = (m, r) \<Longrightarrow> length r = length xs"
  by (induction xs arbitrary: x m r) (auto split: prod.splits if_splits)

lemma Pop_mset: "Pop lessFn x xs = (m, r) \<Longrightarrow> add_mset m (mset r) = add_mset x (mset xs)"
proof (induction xs arbitrary: x m r)
  case Nil
  then show ?case by simp
next
  case (Cons y ys)
  show ?case
  proof (cases "lessFn y x")
    case True
    obtain m' r' where p: "Pop lessFn y ys = (m', r')" by (cases "Pop lessFn y ys")
    with Cons.prems True have "m = m'" "r = x # r'" by simp_all
    with Cons.IH [OF p] show ?thesis by simp
  next
    case False
    obtain m' r' where p: "Pop lessFn x ys = (m', r')" by (cases "Pop lessFn x ys")
    with Cons.prems False have "m = m'" "r = y # r'" by simp_all
    with Cons.IH [OF p] show ?thesis by simp
  qed
qed

text \<open>
  The eviction loop (lines 226 to 241) on the node with key \<open>node\<close>. The node is read
  through the store at every test, as the Go code reads it through its pointer. Both
  outcomes of \<open>Evict\<close> go on with the loop; the sum \<^verbatim>\<open>preempted\<close> is only logged.
\<close>

function evict_loop ::
  "Callbacks \<Rightarrow> TaskInfo \<Rightarrow> string \<Rightarrow> TaskInfo list \<Rightarrow> Session \<times> Statement \<Rightarrow> Session \<times> Statement" where
  "evict_loop cb preemptor node [] (ssn, stmt) = (ssn, stmt)"
| "evict_loop cb preemptor node (v # vs) (ssn, stmt) =
     (if LessEqual (InitResreq preemptor) (FutureIdle (Nodes ssn node)) then (ssn, stmt)
      else case Pop (victimsLessFn cb) v vs of (preemptee, victimsQueue) \<Rightarrow>
        (case Evict ssn stmt preemptee ''preempt'' of (err, ssn', stmt') \<Rightarrow>
           evict_loop cb preemptor node victimsQueue (ssn', stmt')))"
  by pat_completeness auto

termination
proof (relation "measure (\<lambda>(cb, preemptor, node, q, s). length q)", goal_cases)
  case 1
  show ?case by simp
next
  case (2 cb preemptor node v vs ssn stmt x xa y)
  from 2(2) have "length xa = length vs" by (simp add: Pop_length [OF sym])
  then show ?case by simp
qed

text \<open>
  The victim filter is a closure over the session; it is given the session as it is when it
  is called. \<^verbatim>\<open>nil\<close> is \<open>None\<close>.
\<close>

type_synonym victim_filter = "(Session \<Rightarrow> TaskInfo \<Rightarrow> bool) option"

definition preemptees_of :: "victim_filter \<Rightarrow> Session \<Rightarrow> NodeInfo \<Rightarrow> TaskInfo list" where
  "preemptees_of flt ssn node =
     map Clone (case flt of None \<Rightarrow> Tasks node | Some f \<Rightarrow> filter (f ssn) (Tasks node))"

text \<open>
  The body of the loop over the selected nodes (lines 197 to 257). The result says whether
  the loop ends here (\<^verbatim>\<open>assigned = true; break\<close>) or goes on with the next node.
\<close>

definition preempt_node ::
  "Callbacks \<Rightarrow> TaskInfo \<Rightarrow> victim_filter \<Rightarrow> string \<Rightarrow> Session \<times> Statement
     \<Rightarrow> bool \<times> Session \<times> Statement" where
  "preempt_node cb preemptor flt node s =
     (case s of (ssn, stmt) \<Rightarrow>
        let preemptees = preemptees_of flt ssn (Nodes ssn node);
            victims = Preemptable cb ssn preemptor preemptees
        in case validateVictims preemptor (Nodes ssn node) victims of
             Some err \<Rightarrow> (False, ssn, stmt)
           | None \<Rightarrow>
               let victimsQueue = foldl Push [] victims
               in case evict_loop cb preemptor node victimsQueue (ssn, stmt) of (ssn1, stmt1) \<Rightarrow>
                    if LessEqual (InitResreq preemptor) (FutureIdle (Nodes ssn1 node))
                    then (case Pipeline ssn1 stmt1 preemptor (Name (Nodes ssn1 node)) of
                            (err, ssn2, stmt2) \<Rightarrow> (True, ssn2, stmt2))
                    else (False, ssn1, stmt1))"

fun preempt_nodes ::
  "Callbacks \<Rightarrow> TaskInfo \<Rightarrow> victim_filter \<Rightarrow> string list \<Rightarrow> Session \<times> Statement
     \<Rightarrow> bool \<times> Session \<times> Statement" where
  "preempt_nodes cb preemptor flt [] s = (False, s)"
| "preempt_nodes cb preemptor flt (node # rest) s =
     (case preempt_node cb preemptor flt node s of
        (True, s') \<Rightarrow> (True, s')
      | (False, s') \<Rightarrow> preempt_nodes cb preemptor flt rest s')"

definition preempt ::
  "Callbacks \<Rightarrow> Session \<Rightarrow> Statement \<Rightarrow> TaskInfo \<Rightarrow> victim_filter \<Rightarrow> bool \<times> Session \<times> Statement" where
  "preempt cb ssn stmt preemptor flt =
     preempt_nodes cb preemptor flt (selectedNodes cb ssn preemptor) (ssn, stmt)"

subsection \<open>The victim filters of Execute\<close>

text \<open>
  The closure of lines 115 to 127, over the preemptor job (a pointer, so a key of the job
  store) and the preemptor task, and the closure of lines 159 to 167.
\<close>

definition cross_job_filter :: "string \<Rightarrow> TaskInfo \<Rightarrow> Session \<Rightarrow> TaskInfo \<Rightarrow> bool" where
  "cross_job_filter preemptorJob preemptor ssn task =
     (if Status task \<noteq> Running then False
      else if Job task \<notin> set (JobKeys ssn) then False
      else Queue (Jobs ssn (Job task)) = Queue (Jobs ssn preemptorJob) \<and> Job preemptor \<noteq> Job task)"

definition intra_job_filter :: "TaskInfo \<Rightarrow> Session \<Rightarrow> TaskInfo \<Rightarrow> bool" where
  "intra_job_filter preemptor ssn task =
     (if Status task \<noteq> Running then False
      else Job preemptor = Job task)"

subsection \<open>Execute\<close>

text \<open>
  The local variables of \<open>Execute\<close>. A job is held by pointer, that is by its key in the
  job store: \<open>preemptorsMap\<close> maps a queue to the queue of its preemptor jobs,
  \<open>preemptorTasks\<close> maps the \<open>UID\<close> of a job to the queue of its pending tasks. A map
  is an association list. Go ranges over a map in an order that it chooses anew at every
  \<^verbatim>\<open>range\<close>: the range over \<^verbatim>\<open>ssn.Jobs\<close> (line 55) follows the list \<open>JobKeys\<close> of the
  session, which is any list; the range over \<^verbatim>\<open>queues\<close> (line 86) does not depend on it
  and follows an order that \<open>Execute\<close> is given.
\<close>

record Collected =
  preemptorsMap :: "(string \<times> string list) list"
  preemptorTasks :: "(string \<times> TaskInfo list) list"
  underRequest :: "string list"
  queues :: "(string \<times> QueueInfo) list"

text \<open>The body of the loop over \<^verbatim>\<open>ssn.Jobs\<close> (lines 55 to 83).\<close>

definition collect_job :: "Callbacks \<Rightarrow> Session \<Rightarrow> Collected \<Rightarrow> string \<Rightarrow> Collected" where
  "collect_job cb ssn c k =
     (let job = Jobs ssn k
      in if Phase job = PodGroupPending then c
         else if (case JobValid cb job of None \<Rightarrow> False | Some vr \<Rightarrow> \<not> Pass vr) then c
         else case map_of (Queues ssn) (Queue job) of
                None \<Rightarrow> c
              | Some queue \<Rightarrow>
                  let c1 = (if map_of (queues c) (QueueUID queue) = None
                            then c\<lparr>queues := queues c @ [(QueueUID queue, queue)]\<rparr>
                            else c)
                  in if length (TaskStatusIndex job Pending) \<noteq> 0 \<and> \<not> JobPipelined cb job
                     then c1\<lparr>preemptorsMap :=
                               AList.update (Queue job)
                                 (Push (case map_of (preemptorsMap c1) (Queue job) of
                                          None \<Rightarrow> [] | Some q \<Rightarrow> q) k)
                                 (preemptorsMap c1),
                             underRequest := underRequest c1 @ [k],
                             preemptorTasks :=
                               AList.update (JobUID job)
                                 (foldl Push [] (TaskStatusIndex job Pending))
                                 (preemptorTasks c1)\<rparr>
                     else c1)"

definition collect :: "Callbacks \<Rightarrow> Session \<Rightarrow> Collected" where
  "collect cb ssn =
     foldl (collect_job cb ssn)
       \<lparr>preemptorsMap = [], preemptorTasks = [], underRequest = [], queues = []\<rparr>
       (JobKeys ssn)"

text \<open>All tasks that wait in the task queues.\<close>

definition queued :: "(string \<times> TaskInfo list) list \<Rightarrow> TaskInfo list" where
  "queued pt = concat (map snd pt)"

lemma queued_update:
  "map_of pt k = Some q \<Longrightarrow>
     mset (queued (AList.update k q' pt)) + mset q = mset (queued pt) + mset q'"
  by (induction pt) (auto simp: queued_def)

lemma queued_pop:
  assumes "map_of pt k = Some (t # ts)" and "Pop lessFn t ts = (m, r)"
  shows "add_mset m (mset (queued (AList.update k r pt))) = mset (queued pt)"
proof -
  from queued_update [OF assms(1), of r] Pop_mset [OF assms(2)]
  have "mset (queued (AList.update k r pt)) + add_mset m (mset r) = mset (queued pt) + mset r"
    by simp
  then show ?thesis by simp
qed

lemma queued_pop_length:
  assumes "map_of pt k = Some (t # ts)" and "Pop lessFn t ts = (m, r)"
  shows "length (queued (AList.update k r pt)) < length (queued pt)"
proof -
  from queued_pop [OF assms] have "size (add_mset m (mset (queued (AList.update k r pt)))) = size (mset (queued pt))"
    by simp
  then show ?thesis by simp
qed

text \<open>
  A method call on the queue of a job that has no entry in \<open>preemptorTasks\<close> (line 107)
  is a call on a nil pointer.
\<close>

datatype panic = NilPointer

text \<open>
  The loop over the pending tasks of the preemptor job in the first phase (lines 100 to
  130). The job is read through the store at every test.
\<close>

function phase1_tasks ::
  "Callbacks \<Rightarrow> string \<Rightarrow> Session \<times> Statement \<times> (string \<times> TaskInfo list) list \<times> bool
     \<Rightarrow> panic + Session \<times> Statement \<times> (string \<times> TaskInfo list) list \<times> bool" where
  "phase1_tasks cb preemptorJob (ssn, stmt, pt, assigned) =
     (if JobPipelined cb (Jobs ssn preemptorJob) then Inr (ssn, stmt, pt, assigned)
      else case map_of pt (JobUID (Jobs ssn preemptorJob)) of
             None \<Rightarrow> Inl NilPointer
           | Some [] \<Rightarrow> Inr (ssn, stmt, pt, assigned)
           | Some (t # ts) \<Rightarrow>
               (case Pop (TaskOrderFn cb) t ts of (preemptor, rest) \<Rightarrow>
                  (case preempt cb (ssn\<lparr>calls := calls ssn @ [PopTask preemptor]\<rparr>) stmt preemptor
                          (Some (cross_job_filter preemptorJob preemptor)) of
                     (preempted, ssn', stmt') \<Rightarrow>
                       phase1_tasks cb preemptorJob
                         (ssn', stmt',
                          AList.update (JobUID (Jobs ssn preemptorJob)) rest pt,
                          assigned \<or> preempted))))"
  by pat_completeness auto

termination
proof (relation "measure (\<lambda>(cb, preemptorJob, ssn, stmt, pt, assigned). length (queued pt))",
    goal_cases)
  case 1
  show ?case by simp
next
  case (2 cb preemptorJob ssn stmt pt assigned x2 t ts x y xa ya xb yb)
  from 2(2,3) have "map_of pt (JobUID (Jobs ssn preemptorJob)) = Some (t # ts)" by simp
  from queued_pop_length [OF this 2(4) [symmetric]] show ?case by simp
qed

text \<open>
  One round of the first phase for a queue (lines 96 to 142): the preemptor job has been
  taken from the queue of preemptor jobs, \<open>rest\<close> is what is left of that queue.
\<close>

definition phase1_job ::
  "Callbacks \<Rightarrow> QueueInfo \<Rightarrow> string \<Rightarrow> string list
     \<Rightarrow> Session \<times> (string \<times> string list) list \<times> (string \<times> TaskInfo list) list
     \<Rightarrow> panic + Session \<times> (string \<times> string list) list \<times> (string \<times> TaskInfo list) list" where
  "phase1_job cb queue preemptorJob rest s =
     (case s of (ssn, pm, pt) \<Rightarrow>
        let ssn0 = ssn\<lparr>calls := calls ssn @ [PopJob preemptorJob]\<rparr>;
            pm1 = AList.update (QueueUID queue) rest pm;
            stmt = NewStatement ssn0
        in case phase1_tasks cb preemptorJob (ssn0, stmt, pt, False) of
             Inl e \<Rightarrow> Inl e
           | Inr (ssn1, stmt1, pt1, assigned) \<Rightarrow>
               if JobPipelined cb (Jobs ssn1 preemptorJob)
               then let ssn2 = Commit ssn1 stmt1
                    in if assigned
                       then Inr (ssn2\<lparr>calls := calls ssn2 @ [PushJob preemptorJob]\<rparr>,
                                 AList.update (QueueUID queue) (Push rest preemptorJob) pm1,
                                 pt1)
                       else Inr (ssn2, pm1, pt1)
               else Inr (Discard ssn1 stmt1, pm1, pt1))"

lemma phase1_tasks_shrinks:
  "phase1_tasks cb j (ssn, stmt, pt, a) = Inr (ssn1, stmt1, pt1, a1) \<Longrightarrow>
     length (queued pt1) \<le> length (queued pt) \<and>
     (a1 \<and> \<not> a \<longrightarrow> length (queued pt1) < length (queued pt))"
proof (induction cb j "(ssn, stmt, pt, a)" arbitrary: ssn stmt pt a rule: phase1_tasks.induct)
  case (1 cb j ssn stmt pt a)
  let ?uid = "JobUID (Jobs ssn j)"
  show ?case
  proof (cases "JobPipelined cb (Jobs ssn j)")
    case True
    with "1.prems" show ?thesis by simp
  next
    case False
    show ?thesis
    proof (cases "map_of pt ?uid")
      case None
      with "1.prems" False show ?thesis by simp
    next
      case (Some q)
      show ?thesis
      proof (cases q)
        case Nil
        with "1.prems" False Some show ?thesis by simp
      next
        case (Cons t ts)
        obtain preemptor rest where pop: "Pop (TaskOrderFn cb) t ts = (preemptor, rest)"
          by (cases "Pop (TaskOrderFn cb) t ts")
        let ?ssn0 = "ssn\<lparr>calls := calls ssn @ [PopTask preemptor]\<rparr>"
        obtain preempted ssn' stmt' where pre:
          "preempt cb ?ssn0 stmt preemptor (Some (cross_job_filter j preemptor)) = (preempted, ssn', stmt')"
          by (cases "preempt cb ?ssn0 stmt preemptor (Some (cross_job_filter j preemptor))") auto
        from "1.prems" False Some Cons pop pre
        have rec: "phase1_tasks cb j (ssn', stmt', AList.update ?uid rest pt, a \<or> preempted)
                     = Inr (ssn1, stmt1, pt1, a1)" by simp
        from "1.hyps" [OF False Some Cons pop [symmetric] pre [symmetric] refl rec]
        have "length (queued pt1) \<le> length (queued (AList.update ?uid rest pt))" by simp
        with queued_pop_length [OF Some [unfolded Cons] pop] show ?thesis by simp
      qed
    qed
  qed
qed

definition qlen :: "(string \<times> string list) list \<Rightarrow> string \<Rightarrow> nat" where
  "qlen pm k = (case map_of pm k of None \<Rightarrow> 0 | Some q \<Rightarrow> length q)"

lemma phase1_job_measure:
  assumes "phase1_job cb queue j rest (ssn, pm, pt) = Inr (ssn', pm', pt')"
  shows "length (queued pt') < length (queued pt) \<or>
         length (queued pt') = length (queued pt) \<and> qlen pm' (QueueUID queue) = length rest"
proof -
  let ?ssn0 = "ssn\<lparr>calls := calls ssn @ [PopJob j]\<rparr>"
  obtain ssn1 stmt1 pt1 a1 where inner:
    "phase1_tasks cb j (?ssn0, NewStatement ?ssn0, pt, False) = Inr (ssn1, stmt1, pt1, a1)"
    using assms by (auto simp: phase1_job_def Let_def split: sum.splits)
  note len = phase1_tasks_shrinks [OF inner]
  from assms inner have pt': "pt' = pt1"
    by (auto simp: phase1_job_def Let_def split: if_splits)
  show ?thesis
  proof (cases "a1 \<and> JobPipelined cb (Jobs ssn1 j)")
    case True
    with len pt' show ?thesis by simp
  next
    case False
    with assms inner have "pm' = AList.update (QueueUID queue) rest pm"
      by (auto simp: phase1_job_def Let_def split: if_splits)
    then have "qlen pm' (QueueUID queue) = length rest"
      by (simp add: qlen_def update_conv')
    with len pt' show ?thesis by auto
  qed
qed

text \<open>The first phase for a queue: preemption between the jobs of the queue (lines 87 to 143).\<close>

function phase1 ::
  "Callbacks \<Rightarrow> QueueInfo
     \<Rightarrow> Session \<times> (string \<times> string list) list \<times> (string \<times> TaskInfo list) list
     \<Rightarrow> panic + Session \<times> (string \<times> string list) list \<times> (string \<times> TaskInfo list) list" where
  "phase1 cb queue (ssn, pm, pt) =
     (case map_of pm (QueueUID queue) of
        None \<Rightarrow> Inr (ssn, pm, pt)
      | Some [] \<Rightarrow> Inr (ssn, pm, pt)
      | Some (j # js) \<Rightarrow>
          (case Pop (\<lambda>l r. JobOrderFn cb (Jobs ssn l) (Jobs ssn r)) j js of
             (preemptorJob, rest) \<Rightarrow>
               (case phase1_job cb queue preemptorJob rest (ssn, pm, pt) of
                  Inl e \<Rightarrow> Inl e
                | Inr s' \<Rightarrow> phase1 cb queue s')))"
  by pat_completeness auto

termination
proof (relation "inv_image (less_than <*lex*> less_than)
    (\<lambda>(cb, queue, ssn, pm, pt). (length (queued pt), qlen pm (QueueUID queue)))", goal_cases)
  case 1
  show ?case by auto
next
  case (2 cb queue ssn pm pt x2 j js x y s')
  obtain ssn' pm' pt' where s': "s' = (ssn', pm', pt')" by (cases s')
  from 2(1,2) have q: "qlen pm (QueueUID queue) = Suc (length js)" by (simp add: qlen_def)
  from 2(3) have "length y = length js" by (simp add: Pop_length [OF sym])
  with phase1_job_measure [OF 2(4) [unfolded s']] q s'
  show ?case by auto
qed

text \<open>
  The second phase: preemption between the tasks of a job (lines 147 to 174), for every
  job under request (line 146).
\<close>

function phase2_tasks ::
  "Callbacks \<Rightarrow> string \<Rightarrow> Session \<times> (string \<times> TaskInfo list) list
     \<Rightarrow> Session \<times> (string \<times> TaskInfo list) list" where
  "phase2_tasks cb job (ssn, pt) =
     (case map_of pt (JobUID (Jobs ssn job)) of
        None \<Rightarrow> (ssn, pt)
      | Some [] \<Rightarrow> (ssn, pt)
      | Some (t # ts) \<Rightarrow>
          (case Pop (TaskOrderFn cb) t ts of (preemptor, rest) \<Rightarrow>
             (case preempt cb (ssn\<lparr>calls := calls ssn @ [PopTask preemptor]\<rparr>)
                     (NewStatement (ssn\<lparr>calls := calls ssn @ [PopTask preemptor]\<rparr>)) preemptor
                     (Some (intra_job_filter preemptor)) of
                (assigned, ssn1, stmt1) \<Rightarrow>
                  if \<not> assigned
                  then (Commit ssn1 stmt1, AList.update (JobUID (Jobs ssn job)) rest pt)
                  else phase2_tasks cb job
                         (Commit ssn1 stmt1, AList.update (JobUID (Jobs ssn job)) rest pt))))"
  by pat_completeness auto

termination
proof (relation "measure (\<lambda>(cb, job, ssn, pt). length (queued pt))", goal_cases)
  case 1
  show ?case by simp
next
  case (2 cb job ssn pt x2 t ts x y xa ya xb yb)
  from 2(1,2) have "map_of pt (JobUID (Jobs ssn job)) = Some (t # ts)" by simp
  from queued_pop_length [OF this 2(3) [symmetric]] show ?case by simp
qed

definition phase2 ::
  "Callbacks \<Rightarrow> string list \<Rightarrow> Session \<times> (string \<times> TaskInfo list) list
     \<Rightarrow> Session \<times> (string \<times> TaskInfo list) list" where
  "phase2 cb jobs s = foldl (\<lambda>s job. phase2_tasks cb job s) s jobs"

text \<open>The loop over the queues (lines 86 to 176), on the queues in the order given.\<close>

fun execute_queues ::
  "Callbacks \<Rightarrow> string list \<Rightarrow> QueueInfo list
     \<Rightarrow> Session \<times> (string \<times> string list) list \<times> (string \<times> TaskInfo list) list
     \<Rightarrow> panic + Session \<times> (string \<times> string list) list \<times> (string \<times> TaskInfo list) list" where
  "execute_queues cb jobs [] s = Inr s"
| "execute_queues cb jobs (queue # qs) s =
     (case phase1 cb queue s of
        Inl e \<Rightarrow> Inl e
      | Inr (ssn1, pm1, pt1) \<Rightarrow>
          (case phase2 cb jobs (ssn1, pt1) of
             (ssn2, pt2) \<Rightarrow> execute_queues cb jobs qs (ssn2, pm1, pt2)))"

text \<open>
  The orders in which line 86 may range over the map \<^verbatim>\<open>queues\<close>: every arrangement of
  the queues collected, whatever the order in which the jobs named them.
\<close>

definition queue_order :: "Collected \<Rightarrow> QueueInfo list \<Rightarrow> bool" where
  "queue_order c order \<longleftrightarrow> mset order = mset (map snd (queues c))"

text \<open>
  \<open>Execute\<close> (lines 45 to 177). \<open>order\<close> is the order in which the range of line 86
  visits the queues; a run of the Go code is \<open>Execute cb order ssn\<close> for an \<open>order\<close>
  with \<open>queue_order (collect cb ssn) order\<close>.
\<close>

definition Execute :: "Callbacks \<Rightarrow> QueueInfo list \<Rightarrow> Session \<Rightarrow> panic + Session" where
  "Execute cb order ssn =
     (let c = collect cb ssn
      in case execute_queues cb (underRequest c) order
                (ssn, preemptorsMap c, preemptorTasks c) of
           Inl e \<Rightarrow> Inl e
         | Inr (ssn', pm, pt) \<Rightarrow> Inr ssn')"

subsection \<open>Orderings\<close>

text \<open>
  What the specification asks of a comparator: a strict weak ordering is irreflexive and
  transitive, and its incomparability is transitive.
\<close>

definition irreflexive :: "('a \<Rightarrow> 'a \<Rightarrow> bool) \<Rightarrow> bool" where
  "irreflexive lessFn = (\<forall>x. \<not> lessFn x x)"

definition transitive :: "('a \<Rightarrow> 'a \<Rightarrow> bool) \<Rightarrow> bool" where
  "transitive lessFn = (\<forall>x y z. lessFn x y \<and> lessFn y z \<longrightarrow> lessFn x z)"

definition incomparable :: "('a \<Rightarrow> 'a \<Rightarrow> bool) \<Rightarrow> 'a \<Rightarrow> 'a \<Rightarrow> bool" where
  "incomparable lessFn x y = (\<not> lessFn x y \<and> \<not> lessFn y x)"

definition strict_weak_ordering :: "('a \<Rightarrow> 'a \<Rightarrow> bool) \<Rightarrow> bool" where
  "strict_weak_ordering lessFn =
     (irreflexive lessFn \<and> transitive lessFn \<and> transitive (incomparable lessFn))"

subsection \<open>Reading the record of calls\<close>

text \<open>
  The calls made between two sessions, the tasks on which \<open>Evict\<close> was called among
  them, and the effect of calling \<open>Evict\<close> on a list of tasks in order.
\<close>

definition new_calls :: "Session \<Rightarrow> Session \<Rightarrow> call list" where
  "new_calls ssn ssn' = drop (length (calls ssn)) (calls ssn')"

fun evict_targets :: "call list \<Rightarrow> TaskInfo list" where
  "evict_targets [] = []"
| "evict_targets (CallEvict t e # cs) = t # evict_targets cs"
| "evict_targets (c # cs) = evict_targets cs"

fun evict_all :: "TaskInfo list \<Rightarrow> Session \<times> Statement \<Rightarrow> Session \<times> Statement" where
  "evict_all [] s = s"
| "evict_all (t # ts) (ssn, stmt) = evict_all ts (snd (Evict ssn stmt t ''preempt''))"

fun is_evict :: "call \<Rightarrow> bool" where
  "is_evict (CallEvict t e) = True"
| "is_evict c = False"

definition issued :: "Session \<Rightarrow> Session \<Rightarrow> TaskInfo list" where
  "issued ssn ssn' = evict_targets (new_calls ssn ssn')"

text \<open>The preemptor tasks that were popped, and the calls that a preemption attempt makes.\<close>

fun popped :: "call list \<Rightarrow> TaskInfo list" where
  "popped [] = []"
| "popped (PopTask t # cs) = t # popped cs"
| "popped (c # cs) = popped cs"

fun is_pipeline :: "call \<Rightarrow> bool" where
  "is_pipeline (CallPipeline t h e) = True"
| "is_pipeline c = False"

fun is_attempt :: "call \<Rightarrow> bool" where
  "is_attempt (CallEvict t e) = True"
| "is_attempt (CallPipeline t h e) = True"
| "is_attempt (PopTask t) = True"
| "is_attempt c = False"

text \<open>
  The calls of the second phase for one job: attempt after attempt, each begun by the pop
  of a preemptor and ended by a \<open>Commit\<close>; an attempt that places no preemptor is the
  last one.
\<close>

inductive phase2_run :: "call list \<Rightarrow> bool" where
  finished: "phase2_run []"
| failed: "list_all is_evict cs \<Longrightarrow> phase2_run (PopTask p # cs @ [CallCommit])"
| assigned: "list_all is_evict cs \<Longrightarrow> phase2_run rest \<Longrightarrow>
     phase2_run (PopTask p # cs @ [CallPipeline p h e, CallCommit] @ rest)"

subsection \<open>What the loops preserve\<close>

text \<open>
  What a preemption attempt leaves alone: what is committed, the keys of the stores, the
  identity and the queue of every job, and what the open statement keeps for \<open>Discard\<close>.
\<close>

definition same_frame :: "Session \<times> Statement \<Rightarrow> Session \<times> Statement \<Rightarrow> bool" where
  "same_frame s s' \<longleftrightarrow>
     openJobs (snd s') = openJobs (snd s) \<and> openNodes (snd s') = openNodes (snd s) \<and>
     committed (fst s') = committed (fst s) \<and>
     JobKeys (fst s') = JobKeys (fst s) \<and> NodeKeys (fst s') = NodeKeys (fst s) \<and>
     Queues (fst s') = Queues (fst s) \<and>
     (\<forall>k. JobUID (Jobs (fst s') k) = JobUID (Jobs (fst s) k)) \<and>
     (\<forall>k. Queue (Jobs (fst s') k) = Queue (Jobs (fst s) k))"

text \<open>
  The popped preemptors and the tasks that still wait make up the tasks that waited
  before.
\<close>

definition pops_from ::
  "Session \<times> (string \<times> TaskInfo list) list \<Rightarrow> Session \<times> (string \<times> TaskInfo list) list \<Rightarrow> bool" where
  "pops_from s s' \<longleftrightarrow>
     (\<exists>cs. calls (fst s') = calls (fst s) @ cs \<and>
           mset (popped cs) + mset (queued (snd s')) = mset (queued (snd s)))"

text \<open>
  Every job that waits in a queue of preemptor jobs has a task queue: what the collection
  phase sets up and what keeps line 107 from a nil pointer.
\<close>

definition queues_known ::
  "Session \<Rightarrow> (string \<times> string list) list \<Rightarrow> (string \<times> TaskInfo list) list \<Rightarrow> bool" where
  "queues_known ssn pm pt \<longleftrightarrow>
     (\<forall>entry \<in> set pm. \<forall>j \<in> set (snd entry). JobUID (Jobs ssn j) \<in> dom (map_of pt))"

subsection \<open>A concrete session\<close>

text \<open>
  Policies in the style of the priority and gang plugins, and the sessions of the
  end-to-end scenarios of the specification: a job with a pending task that asks for two
  cpu, and a job of lower priority with running tasks on the one node.
\<close>

definition cpu :: "nat \<Rightarrow> resource" where
  "cpu n = [(''cpu'', n)]"

definition mkTask :: "string \<Rightarrow> string \<Rightarrow> string \<Rightarrow> TaskStatus \<Rightarrow> int \<Rightarrow> resource \<Rightarrow> TaskInfo" where
  "mkTask uid job node st prio req =
     \<lparr>UID = uid, Job = job, NodeName = node, Status = st, Priority = prio,
      Resreq = req, InitResreq = req\<rparr>"

definition gangPipelined :: "JobInfo \<Rightarrow> bool" where
  "gangPipelined job =
     (MinAvailable job \<le> length (filter (\<lambda>t. Status t = Pipelined \<or> Status t = Bound \<or> Status t = Running)
        (JobTasks job)))"

definition priorityCallbacks :: Callbacks where
  "priorityCallbacks =
     \<lparr>JobOrderFn = (\<lambda>l r. JobPriority r < JobPriority l),
      TaskOrderFn = (\<lambda>l r. Priority r < Priority l),
      JobValid = (\<lambda>job. None),
      JobPipelined = gangPipelined,
      PredicateFn = (\<lambda>task node. True),
      NodeOrderFn = (\<lambda>task node. 0),
      Preemptable = (\<lambda>ssn preemptor preemptees. preemptees)\<rparr>"

definition p1 :: TaskInfo where
  "p1 = mkTask ''p1'' ''job1'' [] Pending 10 (cpu 2)"

definition r1 :: TaskInfo where
  "r1 = mkTask ''r1'' ''job2'' ''n1'' Running 1 (cpu 2)"

definition t1 :: TaskInfo where
  "t1 = mkTask ''t1'' ''job2'' ''n1'' Running 1 (cpu 1)"

definition t2 :: TaskInfo where
  "t2 = mkTask ''t2'' ''job2'' ''n1'' Running 2 (cpu 1)"

definition job1 :: JobInfo where
  "job1 = \<lparr>JobUID = ''job1'', Queue = ''q1'', Phase = PodGroupRunning, JobPriority = 10,
           MinAvailable = 1, JobTasks = [p1]\<rparr>"

definition job2 :: "TaskInfo list \<Rightarrow> JobInfo" where
  "job2 ts = \<lparr>JobUID = ''job2'', Queue = ''q1'', Phase = PodGroupRunning, JobPriority = 1,
           MinAvailable = 1, JobTasks = ts\<rparr>"

definition node1 :: "nat \<Rightarrow> TaskInfo list \<Rightarrow> nat \<Rightarrow> NodeInfo" where
  "node1 cap ts idle = \<lparr>Name = ''n1'', Allocatable = cpu cap, Tasks = ts, FutureIdle = cpu idle\<rparr>"

definition queue1 :: QueueInfo where
  "queue1 = \<lparr>QueueUID = ''q1'', QueueName = ''q1''\<rparr>"

definition mkSession :: "TaskInfo list \<Rightarrow> NodeInfo \<Rightarrow> Session" where
  "mkSession ts node =
     \<lparr>JobKeys = [''job1'', ''job2''],
      Jobs = (\<lambda>k. if k = ''job1'' then job1 else job2 ts),
      NodeKeys = [''n1''],
      Nodes = (\<lambda>k. node),
      Queues = [(''q1'', queue1)],
      committed = [],
      calls = []\<rparr>"

text \<open>Scenario A: the node is full with one running task of two cpu.\<close>

definition ssnA :: Session where
  "ssnA = mkSession [r1] (node1 2 [r1] 0)"

text \<open>Scenario B: as A, but evicting the running task frees one cpu only.\<close>

definition ssnB :: Session where
  "ssnB = mkSession [r1\<lparr>Resreq := cpu 1\<rparr>] (node1 1 [r1\<lparr>Resreq := cpu 1\<rparr>] 0)"

text \<open>Scenario C: the node is full with two running tasks of one cpu each.\<close>

definition ssnC :: Session where
  "ssnC = mkSession [t1, t2] (node1 2 [t1, t2] 0)"

text \<open>A node that has two cpu idle beside a running task of the other job.\<close>

definition ssnIdle :: Session where
  "ssnIdle = mkSession [t1] (node1 3 [t1] 2)"



text \<open>
  A victim selection whose answer is stale: the victims it returns are no longer placed
  where it says, so that every \<open>Evict\<close> fails.
\<close>

definition staleCallbacks :: Callbacks where
  "staleCallbacks =
     priorityCallbacks\<lparr>Preemptable := \<lambda>ssn preemptor preemptees.
        map (\<lambda>t. t\<lparr>NodeName := ''gone''\<rparr>) preemptees\<rparr>"

text \<open>Scenario D: a pending task and a running sibling of lower priority on a full node.\<close>

definition pD :: TaskInfo where
  "pD = mkTask ''pD'' ''job1'' [] Pending 10 (cpu 1)"

definition sD :: TaskInfo where
  "sD = mkTask ''sD'' ''job1'' ''n1'' Running 1 (cpu 1)"

definition ssnD :: Session where
  "ssnD =
     \<lparr>JobKeys = [''job1''],
      Jobs = (\<lambda>k. job1\<lparr>MinAvailable := 2, JobTasks := [pD, sD]\<rparr>),
      NodeKeys = [''n1''],
      Nodes = (\<lambda>k. node1 1 [sD] 0),
      Queues = [(''q1'', queue1)],
      committed = [],
      calls = []\<rparr>"


definition ssnIdleX :: Session where
  "ssnIdleX = mkSession [t1] ((node1 3 [t1] 2)\<lparr>Name := ''nX''\<rparr>)"


text \<open>
  Two queues with one job each, both with a pending task and nothing to preempt on the
  one node; the session names the job of the second queue first.
\<close>

definition queue2 :: QueueInfo where
  "queue2 = \<lparr>QueueUID = ''q2'', QueueName = ''q2''\<rparr>"

definition p3 :: TaskInfo where
  "p3 = mkTask ''p3'' ''job3'' [] Pending 5 (cpu 2)"

definition job3 :: JobInfo where
  "job3 = \<lparr>JobUID = ''job3'', Queue = ''q2'', Phase = PodGroupRunning, JobPriority = 5,
           MinAvailable = 1, JobTasks = [p3]\<rparr>"

definition ssnQ :: Session where
  "ssnQ =
     \<lparr>JobKeys = [''job3'', ''job1''],
      Jobs = (\<lambda>k. if k = ''job1'' then job1 else job3),
      NodeKeys = [''n1''],
      Nodes = (\<lambda>k. node1 0 [] 0),
      Queues = [(''q1'', queue1), (''q2'', queue2)],
      committed = [],
      calls = []\<rparr>"

section \<open>Properties of resource vectors\<close>

lemma amount_Add: "amount (Add l r) d = amount l d + amount r d"
proof -
  have "map_of (map (\<lambda>d. (d, f d)) ds) d = (if d \<in> set ds then Some (f d) else None)"
    for f :: "string \<Rightarrow> nat" and ds
    by (induction ds) auto
  moreover have "d \<notin> set (map fst l) \<Longrightarrow> amount l d = 0" for l
    by (simp add: amount_def map_of_eq_None_iff [THEN iffD2])
  ultimately show ?thesis
    by (auto simp: Add_def dims_def amount_def [of "map _ _"] split: option.splits)
qed

lemma LessEqual_iff: "LessEqual l r \<longleftrightarrow> (\<forall>d. amount l d \<le> amount r d)"
proof -
  have "d \<notin> set (map fst l) \<Longrightarrow> amount l d = 0" for d
    by (simp add: amount_def map_of_eq_None_iff [THEN iffD2])
  then show ?thesis
    unfolding LessEqual_def list_all_iff by (metis le0)
qed

lemma amount_foldl_Add:
  "amount (foldl (\<lambda>f victim. Add f (Resreq victim)) r victims) d
     = amount r d + (\<Sum>victim\<leftarrow>victims. amount (Resreq victim) d)"
  by (induction victims arbitrary: r) (simp_all add: amount_Add)

section \<open>validateVictims and the skipped node\<close>

lemma validateVictims_None_iff:
  "validateVictims preemptor node victims = None \<longleftrightarrow>
     victims \<noteq> [] \<and>
     LessEqual (InitResreq preemptor) (foldl (\<lambda>f victim. Add f (Resreq victim)) (FutureIdle node) victims)"
  by (simp add: validateVictims_def Let_def)

lemma preempt_node_invalid:
  "validateVictims preemptor (Nodes ssn node)
      (Preemptable cb ssn preemptor (preemptees_of flt ssn (Nodes ssn node))) = Some err
   \<Longrightarrow> preempt_node cb preemptor flt node (ssn, stmt) = (False, ssn, stmt)"
  by (simp add: preempt_node_def Let_def)

text \<open>
  Claim C3. \<open>validateVictims\<close> returns an error if and only if the victim set is empty or
  the preemptor's request is not less-or-equal to the node's future-idle vector after every
  victim's resources have been added to it, that is if some dimension of the request exceeds
  the future-idle amount plus the victims' amounts. When it returns an error, the attempt on
  the node ends without a call on the statement and with the session unchanged, and the
  loop over the nodes goes on with the next ranked node.
\<close>

theorem validateVictims_error_skips_node:
  "(validateVictims preemptor node victims \<noteq> None \<longleftrightarrow>
      victims = [] \<or>
      \<not> LessEqual (InitResreq preemptor)
           (foldl (\<lambda>f victim. Add f (Resreq victim)) (FutureIdle node) victims))
   \<and> (LessEqual (InitResreq preemptor)
           (foldl (\<lambda>f victim. Add f (Resreq victim)) (FutureIdle node) victims) \<longleftrightarrow>
        (\<forall>d. amount (InitResreq preemptor) d
               \<le> amount (FutureIdle node) d + (\<Sum>victim\<leftarrow>victims. amount (Resreq victim) d)))
   \<and> (validateVictims preemptor (Nodes ssn n)
          (Preemptable cb ssn preemptor (preemptees_of flt ssn (Nodes ssn n))) \<noteq> None \<longrightarrow>
        preempt_node cb preemptor flt n (ssn, stmt) = (False, ssn, stmt) \<and>
        preempt_nodes cb preemptor flt (n # rest) (ssn, stmt)
          = preempt_nodes cb preemptor flt rest (ssn, stmt))"
proof (intro conjI impI)
  show "validateVictims preemptor node victims \<noteq> None \<longleftrightarrow>
      victims = [] \<or>
      \<not> LessEqual (InitResreq preemptor)
           (foldl (\<lambda>f victim. Add f (Resreq victim)) (FutureIdle node) victims)"
    by (simp add: validateVictims_None_iff)
  show "LessEqual (InitResreq preemptor)
           (foldl (\<lambda>f victim. Add f (Resreq victim)) (FutureIdle node) victims) \<longleftrightarrow>
        (\<forall>d. amount (InitResreq preemptor) d
               \<le> amount (FutureIdle node) d + (\<Sum>victim\<leftarrow>victims. amount (Resreq victim) d))"
    by (simp add: LessEqual_iff amount_foldl_Add)
next
  assume "validateVictims preemptor (Nodes ssn n)
          (Preemptable cb ssn preemptor (preemptees_of flt ssn (Nodes ssn n))) \<noteq> None"
  then obtain err where "validateVictims preemptor (Nodes ssn n)
          (Preemptable cb ssn preemptor (preemptees_of flt ssn (Nodes ssn n))) = Some err"
    by blast
  then have skip: "preempt_node cb preemptor flt n (ssn, stmt) = (False, ssn, stmt)"
    by (rule preempt_node_invalid)
  then show "preempt_node cb preemptor flt n (ssn, stmt) = (False, ssn, stmt)" .
  from skip show "preempt_nodes cb preemptor flt (n # rest) (ssn, stmt)
          = preempt_nodes cb preemptor flt rest (ssn, stmt)"
    by simp
qed

theorem validateVictims_error_skips_node_witness:
  "validateVictims p1 (Nodes ssnB ''n1'')
      (Preemptable priorityCallbacks ssnB p1
         (preemptees_of (Some (cross_job_filter ''job1'' p1)) ssnB (Nodes ssnB ''n1''))) \<noteq> None
   \<and> preempt_node priorityCallbacks p1 (Some (cross_job_filter ''job1'' p1)) ''n1''
         (ssnB, NewStatement ssnB) = (False, ssnB, NewStatement ssnB)
   \<and> preempt_nodes priorityCallbacks p1 (Some (cross_job_filter ''job1'' p1)) [''n1'', ''n1'']
         (ssnB, NewStatement ssnB)
       = preempt_nodes priorityCallbacks p1 (Some (cross_job_filter ''job1'' p1)) [''n1'']
           (ssnB, NewStatement ssnB)"
proof -
  have invalid: "validateVictims p1 (Nodes ssnB ''n1'')
      (Preemptable priorityCallbacks ssnB p1
         (preemptees_of (Some (cross_job_filter ''job1'' p1)) ssnB (Nodes ssnB ''n1''))) \<noteq> None"
    by code_simp
  with validateVictims_error_skips_node
         [of p1 "Nodes ssnB ''n1''" "[]" ssnB "''n1''" priorityCallbacks
             "Some (cross_job_filter ''job1'' p1)" "NewStatement ssnB" "[''n1'']"]
  show ?thesis by blast
qed

section \<open>The comparator of the victims queue\<close>

lemma priority_order_strict_weak: "strict_weak_ordering (TaskOrderFn priorityCallbacks)"
  by (auto simp: strict_weak_ordering_def irreflexive_def transitive_def incomparable_def
        priorityCallbacks_def)

text \<open>
  Claim C4, as stated, is refuted: the task order by priority is a strict weak ordering, and
  the comparator of the victims queue built from it relates every task to itself, so it is
  not irreflexive and not a strict weak ordering.
\<close>

theorem victimsLessFn_not_irreflexive:
  "strict_weak_ordering (TaskOrderFn priorityCallbacks)
   \<and> victimsLessFn priorityCallbacks p1 p1
   \<and> \<not> irreflexive (victimsLessFn priorityCallbacks)
   \<and> \<not> strict_weak_ordering (victimsLessFn priorityCallbacks)"
proof -
  have refl: "victimsLessFn priorityCallbacks p1 p1"
    by (simp add: victimsLessFn_def priorityCallbacks_def)
  then have "\<not> irreflexive (victimsLessFn priorityCallbacks)"
    unfolding irreflexive_def by blast
  with refl priority_order_strict_weak show ?thesis
    by (simp add: strict_weak_ordering_def)
qed

text \<open>
  Claim C4, amended. The comparator of the victims queue is the negation of the task
  order. For every task order that is a strict weak ordering it is reflexive, transitive
  and total, a total preorder and not a strict ordering, and one task is strictly before
  another in it exactly when the task order puts them the other way round.
\<close>

theorem victimsLessFn_total_preorder:
  assumes "strict_weak_ordering (TaskOrderFn cb)"
  shows "(\<forall>x. victimsLessFn cb x x)
   \<and> transitive (victimsLessFn cb)
   \<and> (\<forall>x y. victimsLessFn cb x y \<or> victimsLessFn cb y x)
   \<and> (\<forall>x y. victimsLessFn cb x y \<and> \<not> victimsLessFn cb y x \<longleftrightarrow> TaskOrderFn cb y x)"
proof -
  let ?lt = "TaskOrderFn cb"
  from assms have irr: "\<And>x. \<not> ?lt x x"
    and tr: "\<And>x y z. ?lt x y \<Longrightarrow> ?lt y z \<Longrightarrow> ?lt x z"
    and inc: "\<And>x y z. \<not> ?lt x y \<Longrightarrow> \<not> ?lt y x \<Longrightarrow> \<not> ?lt y z \<Longrightarrow> \<not> ?lt z y
                \<Longrightarrow> \<not> ?lt x z \<and> \<not> ?lt z x"
    unfolding strict_weak_ordering_def irreflexive_def transitive_def incomparable_def
    by blast+
  have asym: "\<not> (?lt x y \<and> ?lt y x)" for x y
    using irr tr by blast
  have neg_trans: "\<not> ?lt x z" if xy: "\<not> ?lt x y" and yz: "\<not> ?lt y z" for x y z
  proof
    assume xz: "?lt x z"
    have "\<not> ?lt y x" using tr [of y x z] xz yz by blast
    moreover have "\<not> ?lt z y" using tr [of x z y] xz xy by blast
    ultimately have "\<not> ?lt x z" using inc [of x y z] xy yz by blast
    with xz show False by blast
  qed
  have "\<forall>x. victimsLessFn cb x x"
    by (simp add: victimsLessFn_def irr)
  moreover have "transitive (victimsLessFn cb)"
    unfolding transitive_def victimsLessFn_def using neg_trans by blast
  moreover have "\<forall>x y. victimsLessFn cb x y \<or> victimsLessFn cb y x"
    unfolding victimsLessFn_def using asym by blast
  moreover have "\<forall>x y. victimsLessFn cb x y \<and> \<not> victimsLessFn cb y x \<longleftrightarrow> ?lt y x"
    unfolding victimsLessFn_def using asym by blast
  ultimately show ?thesis by blast
qed

theorem victimsLessFn_total_preorder_witness:
  "strict_weak_ordering (TaskOrderFn priorityCallbacks)
   \<and> victimsLessFn priorityCallbacks t1 t1
   \<and> transitive (victimsLessFn priorityCallbacks)
   \<and> (victimsLessFn priorityCallbacks t1 t2 \<and> \<not> victimsLessFn priorityCallbacks t2 t1)
   \<and> TaskOrderFn priorityCallbacks t2 t1"
  using victimsLessFn_total_preorder [OF priority_order_strict_weak] priority_order_strict_weak
  by (simp add: victimsLessFn_def priorityCallbacks_def t1_def t2_def mkTask_def)

section \<open>The victim filters\<close>

text \<open>
  Claim C5. The cross-job filter accepts a task of a node only if the task is running, its
  job is a job of the session, that job's queue is the queue of the preemptor job, and its
  job is not the preemptor's job; the intra-job filter accepts a task only if it is running
  and its job is the preemptor's job. The same holds of every task that \<open>preempt\<close>
  collects from a node as a candidate victim with these filters.
\<close>

theorem victim_filters_select:
  "(cross_job_filter preemptorJob preemptor ssn task \<longleftrightarrow>
      Status task = Running \<and> Job task \<in> set (JobKeys ssn) \<and>
      Queue (Jobs ssn (Job task)) = Queue (Jobs ssn preemptorJob) \<and> Job task \<noteq> Job preemptor)
   \<and> (intra_job_filter preemptor ssn task \<longleftrightarrow>
      Status task = Running \<and> Job task = Job preemptor)
   \<and> (\<forall>victim \<in> set (preemptees_of (Some (cross_job_filter preemptorJob preemptor)) ssn node).
        victim \<in> set (Tasks node) \<and> Status victim = Running \<and> Job victim \<in> set (JobKeys ssn) \<and>
        Queue (Jobs ssn (Job victim)) = Queue (Jobs ssn preemptorJob) \<and>
        Job victim \<noteq> Job preemptor)
   \<and> (\<forall>victim \<in> set (preemptees_of (Some (intra_job_filter preemptor)) ssn node).
        victim \<in> set (Tasks node) \<and> Status victim = Running \<and> Job victim = Job preemptor)"
  by (auto simp: cross_job_filter_def intra_job_filter_def preemptees_of_def Clone_def)

theorem victim_filters_select_witness:
  "preemptees_of (Some (cross_job_filter ''job1'' p1)) ssnC (Nodes ssnC ''n1'') = [t1, t2]
   \<and> Status t1 = Running \<and> Job t1 \<in> set (JobKeys ssnC)
   \<and> Queue (Jobs ssnC (Job t1)) = Queue (Jobs ssnC ''job1'') \<and> Job t1 \<noteq> Job p1
   \<and> preemptees_of (Some (intra_job_filter p1)) ssnC (Nodes ssnC ''n1'') = []"
proof -
  have cross: "preemptees_of (Some (cross_job_filter ''job1'' p1)) ssnC (Nodes ssnC ''n1'') = [t1, t2]"
    by code_simp
  have intra: "preemptees_of (Some (intra_job_filter p1)) ssnC (Nodes ssnC ''n1'') = []"
    by code_simp
  from cross have "t1 \<in> set (preemptees_of (Some (cross_job_filter ''job1'' p1)) ssnC (Nodes ssnC ''n1''))"
    by simp
  with victim_filters_select [of "''job1''" p1 ssnC t1 "Nodes ssnC ''n1''"] cross intra
  show ?thesis by blast
qed

section \<open>The calls of a preemption attempt\<close>

lemma Evict_calls:
  "Evict ssn stmt t reason = (e, ssn', stmt') \<Longrightarrow> calls ssn' = calls ssn @ [CallEvict t e]"
  by (auto simp: Evict_def Let_def split: if_splits)

lemma Evict_failed:
  "Evict ssn stmt t reason = (Some err, ssn', stmt') \<Longrightarrow>
     ssn' = ssn\<lparr>calls := calls ssn @ [CallEvict t (Some err)]\<rparr> \<and> stmt' = stmt"
  by (auto simp: Evict_def Let_def split: if_splits)

lemma Evict_keeps:
  "Evict ssn stmt t reason = (e, ssn', stmt') \<Longrightarrow>
     NodeKeys ssn' = NodeKeys ssn \<and> Name (Nodes ssn' k) = Name (Nodes ssn k) \<and>
     Jobs ssn' = Jobs ssn \<and> JobKeys ssn' = JobKeys ssn \<and> committed ssn' = committed ssn"
  by (auto simp: Evict_def Let_def split: if_splits)

lemma evict_all_calls:
  "evict_all vs (ssn, stmt) = (ssn', stmt') \<Longrightarrow>
     \<exists>cs. calls ssn' = calls ssn @ cs \<and> evict_targets cs = vs \<and>
          (\<forall>c \<in> set cs. \<exists>t e. c = CallEvict t e)"
proof (induction vs arbitrary: ssn stmt)
  case Nil
  then show ?case by simp
next
  case (Cons v vs)
  obtain e ssn1 stmt1 where ev: "Evict ssn stmt v ''preempt'' = (e, ssn1, stmt1)"
    by (cases "Evict ssn stmt v ''preempt''") auto
  with Cons.prems have "evict_all vs (ssn1, stmt1) = (ssn', stmt')" by simp
  from Cons.IH [OF this] obtain cs where cs: "calls ssn' = calls ssn1 @ cs"
    "evict_targets cs = vs" "\<forall>c \<in> set cs. \<exists>t e. c = CallEvict t e"
    by blast
  from Evict_calls [OF ev] cs have "calls ssn' = calls ssn @ (CallEvict v e # cs)" by simp
  moreover have "evict_targets (CallEvict v e # cs) = v # vs" using cs by simp
  moreover have "\<forall>c \<in> set (CallEvict v e # cs). \<exists>t e. c = CallEvict t e" using cs by auto
  ultimately show ?case by blast
qed

lemma evict_loop_run:
  "evict_loop cb preemptor node q (ssn, stmt) = (ssn', stmt') \<Longrightarrow>
     \<exists>vs. (ssn', stmt') = evict_all vs (ssn, stmt) \<and> mset vs \<subseteq># mset q \<and>
       (\<forall>i<length vs. \<not> LessEqual (InitResreq preemptor)
            (FutureIdle (Nodes (fst (evict_all (take i vs) (ssn, stmt))) node))) \<and>
       (length vs < length q \<longrightarrow> LessEqual (InitResreq preemptor) (FutureIdle (Nodes ssn' node)))"
proof (induction cb preemptor node q "(ssn, stmt)" arbitrary: ssn stmt rule: evict_loop.induct)
  case (1 cb preemptor node ssn stmt)
  then have "(ssn', stmt') = evict_all [] (ssn, stmt)" by simp
  then show ?case by fastforce
next
  case (2 cb preemptor node v vs ssn stmt)
  show ?case
  proof (cases "LessEqual (InitResreq preemptor) (FutureIdle (Nodes ssn node))")
    case True
    with "2.prems" have "ssn' = ssn" "stmt' = stmt" by simp_all
    with True have "(ssn', stmt') = evict_all [] (ssn, stmt) \<and> mset [] \<subseteq># mset (v # vs) \<and>
       (\<forall>i<length ([]::TaskInfo list). \<not> LessEqual (InitResreq preemptor)
            (FutureIdle (Nodes (fst (evict_all (take i []) (ssn, stmt))) node))) \<and>
       (length ([]::TaskInfo list) < length (v # vs) \<longrightarrow> LessEqual (InitResreq preemptor) (FutureIdle (Nodes ssn' node)))"
      by simp
    then show ?thesis by blast
  next
    case False
    obtain preemptee q' where pop: "Pop (victimsLessFn cb) v vs = (preemptee, q')"
      by (cases "Pop (victimsLessFn cb) v vs")
    obtain e ssn1 stmt1 where ev: "Evict ssn stmt preemptee ''preempt'' = (e, ssn1, stmt1)"
      by (cases "Evict ssn stmt preemptee ''preempt''") auto
    from "2.prems" False pop ev
    have rest: "evict_loop cb preemptor node q' (ssn1, stmt1) = (ssn', stmt')" by simp
    from "2.hyps" [OF False pop [symmetric] ev [symmetric] refl rest]
    obtain ws where ws: "(ssn', stmt') = evict_all ws (ssn1, stmt1)" "mset ws \<subseteq># mset q'"
      "\<forall>i<length ws. \<not> LessEqual (InitResreq preemptor)
            (FutureIdle (Nodes (fst (evict_all (take i ws) (ssn1, stmt1))) node))"
      "length ws < length q' \<longrightarrow> LessEqual (InitResreq preemptor) (FutureIdle (Nodes ssn' node))"
      by blast
    let ?vs = "preemptee # ws"
    have a: "(ssn', stmt') = evict_all ?vs (ssn, stmt)" using ws(1) ev by simp
    have b: "mset ?vs \<subseteq># mset (v # vs)"
      using ws(2) Pop_mset [OF pop] by (metis mset.simps(2) mset_subset_eq_add_mset_cancel)
    have c: "\<not> LessEqual (InitResreq preemptor)
            (FutureIdle (Nodes (fst (evict_all (take i ?vs) (ssn, stmt))) node))"
      if "i < length ?vs" for i
    proof (cases i)
      case 0
      with False show ?thesis by simp
    next
      case (Suc j)
      with that have "j < length ws" by simp
      with ws(3) Suc ev show ?thesis by simp
    qed
    have d: "length ?vs < length (v # vs) \<longrightarrow> LessEqual (InitResreq preemptor) (FutureIdle (Nodes ssn' node))"
      using ws(4) Pop_length [OF pop] by simp
    from a b c d show ?thesis by blast
  qed
qed

lemma new_calls_append: "calls ssn' = calls ssn @ cs \<Longrightarrow> new_calls ssn ssn' = cs"
  by (simp add: new_calls_def)

lemma Pipeline_calls:
  "Pipeline ssn stmt t h = (e, ssn', stmt') \<Longrightarrow> calls ssn' = calls ssn @ [CallPipeline t h e]"
  by (auto simp: Pipeline_def Let_def split: if_splits)

lemma Pipeline_succeeds:
  "h \<in> set (NodeKeys ssn) \<Longrightarrow> LessEqual (InitResreq t) (FutureIdle (Nodes ssn h)) \<Longrightarrow>
   Pipeline ssn stmt t h = (e, ssn', stmt') \<Longrightarrow>
     e = None \<and> operations stmt' = operations stmt @ [OpPipeline t h]"
  by (auto simp: Pipeline_def Let_def split: if_splits)

lemma Pipeline_result:
  "Pipeline ssn stmt t h = (e, ssn', stmt') \<Longrightarrow>
     (e = None \<longleftrightarrow> operations stmt' = operations stmt @ [OpPipeline t h]) \<and>
     (e \<noteq> None \<longrightarrow> stmt' = stmt \<and> Nodes ssn' = Nodes ssn \<and> Jobs ssn' = Jobs ssn)"
  by (auto simp: Pipeline_def Let_def split: if_splits)

lemma evict_all_keeps:
  "evict_all vs (ssn, stmt) = (ssn', stmt') \<Longrightarrow>
     NodeKeys ssn' = NodeKeys ssn \<and> Name (Nodes ssn' k) = Name (Nodes ssn k) \<and>
     Jobs ssn' = Jobs ssn \<and> JobKeys ssn' = JobKeys ssn \<and> committed ssn' = committed ssn"
proof (induction vs arbitrary: ssn stmt)
  case Nil
  then show ?case by simp
next
  case (Cons v vs)
  obtain e ssn1 stmt1 where ev: "Evict ssn stmt v ''preempt'' = (e, ssn1, stmt1)"
    by (cases "Evict ssn stmt v ''preempt''") auto
  with Cons.prems have "evict_all vs (ssn1, stmt1) = (ssn', stmt')" by simp
  from Cons.IH [OF this] Evict_keeps [OF ev, of k] show ?case by simp
qed

lemma evict_all_no_success:
  "evict_all vs (ssn, stmt) = (ssn', stmt') \<Longrightarrow>
   \<forall>t. CallEvict t None \<notin> set (new_calls ssn ssn') \<Longrightarrow>
     Nodes ssn' = Nodes ssn \<and> stmt' = stmt"
proof (induction vs arbitrary: ssn stmt)
  case Nil
  then show ?case by simp
next
  case (Cons v vs)
  obtain e ssn1 stmt1 where ev: "Evict ssn stmt v ''preempt'' = (e, ssn1, stmt1)"
    by (cases "Evict ssn stmt v ''preempt''") auto
  with Cons.prems have rest: "evict_all vs (ssn1, stmt1) = (ssn', stmt')" by simp
  from evict_all_calls [OF rest] obtain cs where cs: "calls ssn' = calls ssn1 @ cs" by blast
  with Evict_calls [OF ev] have all: "calls ssn' = calls ssn @ (CallEvict v e # cs)" by simp
  note nc = new_calls_append [OF all]
  from Cons.prems(2) nc have "CallEvict v None \<noteq> CallEvict v e"
    by (metis list.set_intros(1))
  then have e: "e \<noteq> None" by auto
  from Cons.prems(2) nc have none: "\<forall>t. CallEvict t None \<notin> set cs" by simp
  from e obtain err where "e = Some err" by blast
  with Evict_failed ev have same: "Nodes ssn1 = Nodes ssn" "stmt1 = stmt" by fastforce+
  from none new_calls_append [OF cs] have "\<forall>t. CallEvict t None \<notin> set (new_calls ssn1 ssn')"
    by simp
  from Cons.IH [OF rest this] same show ?case by simp
qed

lemma evict_calls_are_evicts:
  "\<forall>c \<in> set cs. \<exists>t e. c = CallEvict t e \<Longrightarrow> list_all is_evict cs"
  by (induction cs) auto

lemma preempt_node_calls:
  assumes "preempt_node cb p flt n (ssn, stmt) = (fit, ssn', stmt')"
  shows "\<exists>cs. list_all is_evict cs \<and>
           (if fit then \<exists>e. calls ssn' = calls ssn @ cs @ [CallPipeline p (Name (Nodes ssn n)) e]
            else calls ssn' = calls ssn @ cs)"
    and "NodeKeys ssn' = NodeKeys ssn"
    and "\<not> fit \<Longrightarrow> Name (Nodes ssn' k) = Name (Nodes ssn k)"
proof -
  let ?victims = "Preemptable cb ssn p (preemptees_of flt ssn (Nodes ssn n))"
  have "(\<exists>cs. list_all is_evict cs \<and>
           (if fit then \<exists>e. calls ssn' = calls ssn @ cs @ [CallPipeline p (Name (Nodes ssn n)) e]
            else calls ssn' = calls ssn @ cs)) \<and> NodeKeys ssn' = NodeKeys ssn \<and>
         (\<not> fit \<longrightarrow> Name (Nodes ssn' k) = Name (Nodes ssn k))"
  proof (cases "validateVictims p (Nodes ssn n) ?victims")
    case (Some err)
    with assms have "fit = False" "ssn' = ssn" "stmt' = stmt"
      by (simp_all add: preempt_node_def Let_def)
    then have "list_all is_evict [] \<and> calls ssn' = calls ssn @ []" by simp
    with \<open>fit = False\<close> \<open>ssn' = ssn\<close> show ?thesis by auto
  next
    case None
    obtain ssn1 stmt1 where loop:
      "evict_loop cb p n (foldl Push [] ?victims) (ssn, stmt) = (ssn1, stmt1)"
      by (cases "evict_loop cb p n (foldl Push [] ?victims) (ssn, stmt)")
    from evict_loop_run [OF loop] obtain vs where vs: "(ssn1, stmt1) = evict_all vs (ssn, stmt)"
      by blast
    from evict_all_calls [OF vs [symmetric]] obtain cs where
      cs: "calls ssn1 = calls ssn @ cs" "\<forall>c \<in> set cs. \<exists>t e. c = CallEvict t e" by blast
    have ev: "list_all is_evict cs" using cs(2) by (rule evict_calls_are_evicts)
    note keeps = evict_all_keeps [OF vs [symmetric]]
    show ?thesis
    proof (cases "LessEqual (InitResreq p) (FutureIdle (Nodes ssn1 n))")
      case True
      obtain e ssn2 stmt2 where pl: "Pipeline ssn1 stmt1 p (Name (Nodes ssn1 n)) = (e, ssn2, stmt2)"
        by (cases "Pipeline ssn1 stmt1 p (Name (Nodes ssn1 n))") auto
      with assms None loop True have r: "fit = True" "ssn' = ssn2" "stmt' = stmt2"
        by (simp_all add: preempt_node_def Let_def)
      from Pipeline_calls [OF pl] cs(1) keeps [of n]
      have "calls ssn2 = calls ssn @ cs @ [CallPipeline p (Name (Nodes ssn n)) e]" by simp
      moreover from pl keeps [of n] have "NodeKeys ssn2 = NodeKeys ssn"
        by (auto simp: Pipeline_def Let_def split: if_splits)
      ultimately show ?thesis using r ev by auto
    next
      case False
      with assms None loop have r: "fit = False" "ssn' = ssn1" "stmt' = stmt1"
        by (simp_all add: preempt_node_def Let_def)
      with cs(1) ev keeps [of k] show ?thesis by auto
    qed
  qed
  then show "\<exists>cs. list_all is_evict cs \<and>
           (if fit then \<exists>e. calls ssn' = calls ssn @ cs @ [CallPipeline p (Name (Nodes ssn n)) e]
            else calls ssn' = calls ssn @ cs)"
    and "NodeKeys ssn' = NodeKeys ssn"
    and "\<not> fit \<Longrightarrow> Name (Nodes ssn' k) = Name (Nodes ssn k)"
    by blast+
qed

lemma preempt_nodes_calls:
  "preempt_nodes cb p flt nodes (ssn, stmt) = (a, ssn', stmt') \<Longrightarrow>
     \<exists>cs. list_all is_evict cs \<and>
       (if a then \<exists>n \<in> set nodes. \<exists>e. calls ssn' = calls ssn @ cs @ [CallPipeline p (Name (Nodes ssn n)) e]
        else calls ssn' = calls ssn @ cs)"
proof (induction nodes arbitrary: ssn stmt)
  case Nil
  then have "a = False" "calls ssn' = calls ssn @ []" by simp_all
  then show ?case by (intro exI [of _ "[]"]) simp
next
  case (Cons n rest)
  obtain fit ssn1 stmt1 where node: "preempt_node cb p flt n (ssn, stmt) = (fit, ssn1, stmt1)"
    by (cases "preempt_node cb p flt n (ssn, stmt)") auto
  from preempt_node_calls(1) [OF node] obtain cs where cs: "list_all is_evict cs"
    "if fit then \<exists>e. calls ssn1 = calls ssn @ cs @ [CallPipeline p (Name (Nodes ssn n)) e]
     else calls ssn1 = calls ssn @ cs" by blast
  show ?case
  proof (cases fit)
    case True
    with Cons.prems node have "a = True" "ssn' = ssn1" by simp_all
    with cs True show ?thesis by auto
  next
    case False
    with Cons.prems node have rest: "preempt_nodes cb p flt rest (ssn1, stmt1) = (a, ssn', stmt')"
      by simp
    from Cons.IH [OF rest] obtain ds where ds: "list_all is_evict ds"
      "if a then \<exists>m \<in> set rest. \<exists>e. calls ssn' = calls ssn1 @ ds @ [CallPipeline p (Name (Nodes ssn1 m)) e]
       else calls ssn' = calls ssn1 @ ds" by blast
    from False cs have c1: "calls ssn1 = calls ssn @ cs" by simp
    have names: "Name (Nodes ssn1 m) = Name (Nodes ssn m)" for m
      using preempt_node_calls(3) [OF node] False by simp
    have "list_all is_evict (cs @ ds)" using cs(1) ds(1) by simp
    moreover have "if a then \<exists>m \<in> set (n # rest). \<exists>e. calls ssn' = calls ssn @ (cs @ ds) @ [CallPipeline p (Name (Nodes ssn m)) e]
        else calls ssn' = calls ssn @ (cs @ ds)"
      using ds(2) c1 names by (auto split: if_splits)
    ultimately show ?thesis by blast
  qed
qed


section \<open>The eviction loop\<close>

text \<open>
  Claim C2. Within one node attempt, for every victims queue and every state at the head of
  the eviction loop: the run of the loop is a sequence of \<open>Evict\<close> calls on victims of the
  queue and nothing else; each of these calls is issued in a state in which the preemptor's
  request is not less-or-equal to the node's future-idle projection; if the loop ends
  before the queue is exhausted, the request is less-or-equal to the projection; and if the
  request is less-or-equal to the projection at the head of the loop, the loop ends there
  and issues no \<open>Evict\<close>.
\<close>

theorem eviction_stops_when_sufficient:
  assumes "evict_loop cb preemptor node q (ssn, stmt) = (ssn', stmt')"
  shows "(ssn', stmt') = evict_all (issued ssn ssn') (ssn, stmt)
     \<and> list_all is_evict (new_calls ssn ssn')
     \<and> mset (issued ssn ssn') \<subseteq># mset q
     \<and> (\<forall>i<length (issued ssn ssn'). \<not> LessEqual (InitResreq preemptor)
           (FutureIdle (Nodes (fst (evict_all (take i (issued ssn ssn')) (ssn, stmt))) node)))
     \<and> (length (issued ssn ssn') < length q \<longrightarrow>
           LessEqual (InitResreq preemptor) (FutureIdle (Nodes ssn' node)))
     \<and> (LessEqual (InitResreq preemptor) (FutureIdle (Nodes ssn node)) \<longrightarrow>
           ssn' = ssn \<and> stmt' = stmt)"
proof -
  from evict_loop_run [OF assms] obtain vs where vs: "(ssn', stmt') = evict_all vs (ssn, stmt)"
    "mset vs \<subseteq># mset q"
    "\<forall>i<length vs. \<not> LessEqual (InitResreq preemptor)
            (FutureIdle (Nodes (fst (evict_all (take i vs) (ssn, stmt))) node))"
    "length vs < length q \<longrightarrow> LessEqual (InitResreq preemptor) (FutureIdle (Nodes ssn' node))"
    by blast
  from evict_all_calls [OF vs(1) [symmetric]] obtain cs where cs: "calls ssn' = calls ssn @ cs"
    "evict_targets cs = vs" "\<forall>c \<in> set cs. \<exists>t e. c = CallEvict t e" by blast
  from cs(1,2) have eq: "issued ssn ssn' = vs"
    by (simp add: issued_def new_calls_append)
  have ev: "list_all is_evict (new_calls ssn ssn')"
    using cs(1,3) by (simp add: new_calls_append evict_calls_are_evicts)
  have stop: "ssn' = ssn \<and> stmt' = stmt"
    if "LessEqual (InitResreq preemptor) (FutureIdle (Nodes ssn node))"
    using that assms by (cases q) simp_all
  from vs eq ev stop show ?thesis by simp
qed

theorem eviction_stops_when_sufficient_witness:
  "issued ssnC (fst (evict_loop priorityCallbacks p1 ''n1'' [t1, t2] (ssnC, NewStatement ssnC)))
     = [t1, t2]
   \<and> \<not> LessEqual (InitResreq p1) (FutureIdle (Nodes ssnC ''n1''))
   \<and> \<not> LessEqual (InitResreq p1)
        (FutureIdle (Nodes (fst (evict_all [t1] (ssnC, NewStatement ssnC))) ''n1''))
   \<and> LessEqual (InitResreq p1)
        (FutureIdle (Nodes (fst (evict_all [t1, t2] (ssnC, NewStatement ssnC))) ''n1''))
   \<and> issued ssnIdle (fst (evict_loop priorityCallbacks p1 ''n1'' [t1] (ssnIdle, NewStatement ssnIdle)))
     = []"
proof -
  let ?run = "evict_loop priorityCallbacks p1 ''n1'' [t1, t2] (ssnC, NewStatement ssnC)"
  have run: "?run = (fst ?run, snd ?run)" by simp
  have vs: "issued ssnC (fst ?run) = [t1, t2]" by code_simp
  note inst = eviction_stops_when_sufficient [OF run]
  from inst vs have final: "?run = evict_all [t1, t2] (ssnC, NewStatement ssnC)" by simp
  from inst vs have each: "\<forall>i<2. \<not> LessEqual (InitResreq p1)
     (FutureIdle (Nodes (fst (evict_all (take i [t1, t2]) (ssnC, NewStatement ssnC))) ''n1''))"
    by simp
  from each [rule_format, of 0]
  have a: "\<not> LessEqual (InitResreq p1) (FutureIdle (Nodes ssnC ''n1''))" by simp
  from each [rule_format, of 1]
  have b: "\<not> LessEqual (InitResreq p1)
        (FutureIdle (Nodes (fst (evict_all [t1] (ssnC, NewStatement ssnC))) ''n1''))" by simp
  have c: "LessEqual (InitResreq p1)
        (FutureIdle (Nodes (fst (evict_all [t1, t2] (ssnC, NewStatement ssnC))) ''n1''))"
    by code_simp
  have d: "issued ssnIdle (fst (evict_loop priorityCallbacks p1 ''n1'' [t1] (ssnIdle, NewStatement ssnIdle))) = []"
    by code_simp
  from vs a b c d show ?thesis by simp
qed

section \<open>No candidate node\<close>

lemma selectedNodes_Nil_iff:
  "selectedNodes cb ssn p = [] \<longleftrightarrow> (\<forall>k \<in> set (NodeKeys ssn). \<not> PredicateFn cb p (Nodes ssn k))"
proof -
  have "sort_key f xs = [] \<longleftrightarrow> xs = []" for f :: "int \<times> string \<Rightarrow> int" and xs
    by (metis length_0_conv length_sort)
  then show ?thesis
    by (simp add: selectedNodes_def SortNodes_def PrioritizeNodes_def PredicateNodes_def
          GetNodeList_def filter_empty_conv)
qed

text \<open>
  Claim C9. When the ranked sequence of candidate nodes of a preemptor is empty, which is
  when the predicate accepts no node of the session, \<open>preempt\<close> returns false and leaves
  the session and the statement as they are: no call is recorded, no operation is logged,
  and every node is unchanged.
\<close>

theorem preempt_no_candidates:
  "(selectedNodes cb ssn preemptor = [] \<longrightarrow>
      preempt cb ssn stmt preemptor flt = (False, ssn, stmt)
      \<and> new_calls ssn (fst (snd (preempt cb ssn stmt preemptor flt))) = []
      \<and> Nodes (fst (snd (preempt cb ssn stmt preemptor flt))) = Nodes ssn
      \<and> operations (snd (snd (preempt cb ssn stmt preemptor flt))) = operations stmt)
   \<and> (selectedNodes cb ssn preemptor = [] \<longleftrightarrow>
        (\<forall>k \<in> set (NodeKeys ssn). \<not> PredicateFn cb preemptor (Nodes ssn k)))"
proof (intro conjI impI)
  assume "selectedNodes cb ssn preemptor = []"
  then have run: "preempt cb ssn stmt preemptor flt = (False, ssn, stmt)"
    by (simp add: preempt_def)
  then show "preempt cb ssn stmt preemptor flt = (False, ssn, stmt)" .
  from run show "new_calls ssn (fst (snd (preempt cb ssn stmt preemptor flt))) = []"
    by (simp add: new_calls_def)
  from run show "Nodes (fst (snd (preempt cb ssn stmt preemptor flt))) = Nodes ssn" by simp
  from run show "operations (snd (snd (preempt cb ssn stmt preemptor flt))) = operations stmt"
    by simp
next
  show "selectedNodes cb ssn preemptor = [] \<longleftrightarrow>
        (\<forall>k \<in> set (NodeKeys ssn). \<not> PredicateFn cb preemptor (Nodes ssn k))"
    by (rule selectedNodes_Nil_iff)
qed

theorem preempt_no_candidates_witness:
  "selectedNodes (priorityCallbacks\<lparr>PredicateFn := \<lambda>task node. False\<rparr>) ssnA p1 = []
   \<and> preempt (priorityCallbacks\<lparr>PredicateFn := \<lambda>task node. False\<rparr>) ssnA (NewStatement ssnA) p1
        (Some (cross_job_filter ''job1'' p1)) = (False, ssnA, NewStatement ssnA)"
proof -
  have none: "selectedNodes (priorityCallbacks\<lparr>PredicateFn := \<lambda>task node. False\<rparr>) ssnA p1 = []"
    by code_simp
  with preempt_no_candidates [of "priorityCallbacks\<lparr>PredicateFn := \<lambda>task node. False\<rparr>" ssnA p1
         "NewStatement ssnA" "Some (cross_job_filter ''job1'' p1)"]
  show ?thesis by blast
qed

section \<open>The first fitting node\<close>










section \<open>A node attempt without a successful eviction\<close>

text \<open>
  Claim C8, as stated, is refuted: on a node that has two cpu idle beside one running task
  of another job, the victims pass validation, no \<open>Evict\<close> call is made, so none succeeds,
  and yet the preemptor is pipelined on the node and \<open>preempt\<close> returns true. Where the
  same node is named otherwise than the session stores it, the \<open>Pipeline\<close> call fails
  and nothing is logged, and the node attempt and \<open>preempt\<close> still return true.
\<close>

theorem pipelined_without_eviction:
  "validateVictims p1 (Nodes ssnIdle ''n1'')
      (Preemptable priorityCallbacks ssnIdle p1
         (preemptees_of (Some (cross_job_filter ''job1'' p1)) ssnIdle (Nodes ssnIdle ''n1''))) = None
   \<and> fst (preempt_node priorityCallbacks p1 (Some (cross_job_filter ''job1'' p1)) ''n1''
           (ssnIdle, NewStatement ssnIdle))
   \<and> calls (fst (snd (preempt_node priorityCallbacks p1 (Some (cross_job_filter ''job1'' p1)) ''n1''
           (ssnIdle, NewStatement ssnIdle)))) = [CallPipeline p1 ''n1'' None]
   \<and> operations (snd (snd (preempt_node priorityCallbacks p1 (Some (cross_job_filter ''job1'' p1))
           ''n1'' (ssnIdle, NewStatement ssnIdle)))) = [OpPipeline p1 ''n1'']
   \<and> fst (preempt priorityCallbacks ssnIdle (NewStatement ssnIdle) p1
           (Some (cross_job_filter ''job1'' p1)))
   \<and> validateVictims p1 (Nodes ssnIdleX ''n1'')
      (Preemptable priorityCallbacks ssnIdleX p1
         (preemptees_of (Some (cross_job_filter ''job1'' p1)) ssnIdleX (Nodes ssnIdleX ''n1''))) = None
   \<and> fst (preempt_node priorityCallbacks p1 (Some (cross_job_filter ''job1'' p1)) ''n1''
           (ssnIdleX, NewStatement ssnIdleX))
   \<and> calls (fst (snd (preempt_node priorityCallbacks p1 (Some (cross_job_filter ''job1'' p1)) ''n1''
           (ssnIdleX, NewStatement ssnIdleX)))) = [CallPipeline p1 ''nX'' (Some NodeNotFound)]
   \<and> operations (snd (snd (preempt_node priorityCallbacks p1 (Some (cross_job_filter ''job1'' p1))
           ''n1'' (ssnIdleX, NewStatement ssnIdleX)))) = []
   \<and> fst (preempt priorityCallbacks ssnIdleX (NewStatement ssnIdleX) p1
           (Some (cross_job_filter ''job1'' p1)))"
  by code_simp

text \<open>
  Claim C8, amended. Take a node attempt whose victims pass validation and in which no
  \<open>Evict\<close> call succeeds. If the preemptor's request is not less-or-equal to the node's
  future-idle projection when the attempt starts, no \<open>Pipeline\<close> call is made, nothing is
  logged, the attempt fails and \<open>preempt\<close> goes on with the next ranked node. If the
  request is less-or-equal to the projection when the attempt starts, no \<open>Evict\<close> call is
  made at all: the one call is \<open>Pipeline\<close> for the preemptor with the name of the node,
  and the attempt succeeds and \<open>preempt\<close> returns true without a look at the next node,
  whatever the call returns. The placement is logged exactly when the call succeeds, and a
  failed call changes neither the statement nor the nodes; where the node is stored under
  its name the call succeeds and the preemptor is pipelined on the node.
\<close>

theorem no_eviction_succeeds:
  assumes node: "preempt_node cb preemptor flt n (ssn, stmt) = (fit, ssn', stmt')"
    and valid: "validateVictims preemptor (Nodes ssn n)
        (Preemptable cb ssn preemptor (preemptees_of flt ssn (Nodes ssn n))) = None"
    and none: "\<forall>t. CallEvict t None \<notin> set (new_calls ssn ssn')"
  shows "(\<not> LessEqual (InitResreq preemptor) (FutureIdle (Nodes ssn n)) \<longrightarrow>
            \<not> fit \<and> list_all is_evict (new_calls ssn ssn') \<and>
            Nodes ssn' = Nodes ssn \<and> stmt' = stmt \<and>
            preempt_nodes cb preemptor flt (n # rest) (ssn, stmt)
              = preempt_nodes cb preemptor flt rest (ssn', stmt'))
       \<and> (LessEqual (InitResreq preemptor) (FutureIdle (Nodes ssn n)) \<longrightarrow>
            fit
            \<and> (\<exists>e. new_calls ssn ssn' = [CallPipeline preemptor (Name (Nodes ssn n)) e] \<and>
                  (e = None \<longleftrightarrow>
                     operations stmt'
                       = operations stmt @ [OpPipeline preemptor (Name (Nodes ssn n))]) \<and>
                  (e \<noteq> None \<longrightarrow> stmt' = stmt \<and> Nodes ssn' = Nodes ssn))
            \<and> (n \<in> set (NodeKeys ssn) \<and> Name (Nodes ssn n) = n \<longrightarrow>
                 new_calls ssn ssn' = [CallPipeline preemptor n None] \<and>
                 operations stmt' = operations stmt @ [OpPipeline preemptor n])
            \<and> preempt_nodes cb preemptor flt (n # rest) (ssn, stmt) = (True, ssn', stmt'))"
proof -
  let ?victims = "Preemptable cb ssn preemptor (preemptees_of flt ssn (Nodes ssn n))"
  obtain ssn1 stmt1 where loop:
    "evict_loop cb preemptor n (foldl Push [] ?victims) (ssn, stmt) = (ssn1, stmt1)"
    by (cases "evict_loop cb preemptor n (foldl Push [] ?victims) (ssn, stmt)")
  from evict_loop_run [OF loop] obtain vs where vs: "(ssn1, stmt1) = evict_all vs (ssn, stmt)"
    by blast
  from evict_all_calls [OF vs [symmetric]] obtain cs where
    cs: "calls ssn1 = calls ssn @ cs" "\<forall>c \<in> set cs. \<exists>t e. c = CallEvict t e" by blast
  have ev: "list_all is_evict cs" using cs(2) by (rule evict_calls_are_evicts)
  have sub: "set cs \<subseteq> set (new_calls ssn ssn')"
  proof (cases "LessEqual (InitResreq preemptor) (FutureIdle (Nodes ssn1 n))")
    case True
    obtain e ssn2 stmt2 where pl:
      "Pipeline ssn1 stmt1 preemptor (Name (Nodes ssn1 n)) = (e, ssn2, stmt2)"
      by (cases "Pipeline ssn1 stmt1 preemptor (Name (Nodes ssn1 n))") auto
    with node valid loop True have "ssn' = ssn2" by (simp add: preempt_node_def Let_def)
    with Pipeline_calls [OF pl] cs(1) show ?thesis by (auto simp: new_calls_def)
  next
    case False
    with node valid loop have "ssn' = ssn1" by (simp add: preempt_node_def Let_def)
    with cs(1) show ?thesis by (auto simp: new_calls_def)
  qed
  with none have "\<forall>t. CallEvict t None \<notin> set (new_calls ssn ssn1)"
    using cs(1) by (auto simp: new_calls_def)
  from evict_all_no_success [OF vs [symmetric] this]
  have same: "Nodes ssn1 = Nodes ssn" "stmt1 = stmt" by simp_all
  show ?thesis
  proof (intro conjI impI)
    assume unmet: "\<not> LessEqual (InitResreq preemptor) (FutureIdle (Nodes ssn n))"
    with same have "\<not> LessEqual (InitResreq preemptor) (FutureIdle (Nodes ssn1 n))" by simp
    with node valid loop have r: "fit = False" "ssn' = ssn1" "stmt' = stmt1"
      by (simp_all add: preempt_node_def Let_def)
    from r show "\<not> fit" by simp
    from r cs(1) ev show "list_all is_evict (new_calls ssn ssn')" by (simp add: new_calls_def)
    from r same show "Nodes ssn' = Nodes ssn" and "stmt' = stmt" by simp_all
    from r node show "preempt_nodes cb preemptor flt (n # rest) (ssn, stmt)
              = preempt_nodes cb preemptor flt rest (ssn', stmt')" by simp
  next
    assume met: "LessEqual (InitResreq preemptor) (FutureIdle (Nodes ssn n))"
    have "evict_loop cb preemptor n (foldl Push [] ?victims) (ssn, stmt) = (ssn, stmt)"
      using met by (cases "foldl Push [] ?victims") simp_all
    with loop have s1: "ssn1 = ssn" "stmt1 = stmt" by simp_all
    obtain e ssn2 stmt2 where pl:
      "Pipeline ssn stmt preemptor (Name (Nodes ssn n)) = (e, ssn2, stmt2)"
      by (cases "Pipeline ssn stmt preemptor (Name (Nodes ssn n))") auto
    with node valid loop met s1 have r: "fit = True" "ssn' = ssn2" "stmt' = stmt2"
      by (simp_all add: preempt_node_def Let_def)
    from r show fit by simp
    from Pipeline_calls [OF pl] have "new_calls ssn ssn2 = [CallPipeline preemptor (Name (Nodes ssn n)) e]"
      by (simp add: new_calls_def)
    with Pipeline_result [OF pl] r
    show "\<exists>e. new_calls ssn ssn' = [CallPipeline preemptor (Name (Nodes ssn n)) e] \<and>
                  (e = None \<longleftrightarrow>
                     operations stmt'
                       = operations stmt @ [OpPipeline preemptor (Name (Nodes ssn n))]) \<and>
                  (e \<noteq> None \<longrightarrow> stmt' = stmt \<and> Nodes ssn' = Nodes ssn)"
      by blast
    from r node show "preempt_nodes cb preemptor flt (n # rest) (ssn, stmt) = (True, ssn', stmt')"
      by simp
    assume stored: "n \<in> set (NodeKeys ssn) \<and> Name (Nodes ssn n) = n"
    then have key: "n \<in> set (NodeKeys ssn)" and name: "Name (Nodes ssn n) = n" by simp_all
    from met name have met': "LessEqual (InitResreq preemptor) (FutureIdle (Nodes ssn n))" by simp
    note pl' = pl [unfolded name]
    from Pipeline_succeeds [OF key met' pl'] Pipeline_calls [OF pl'] r
    show "new_calls ssn ssn' = [CallPipeline preemptor n None]"
      and "operations stmt' = operations stmt @ [OpPipeline preemptor n]"
      by (simp_all add: new_calls_def)
  qed
qed

theorem no_eviction_succeeds_witness:
  "validateVictims p1 (Nodes ssnA ''n1'')
      (Preemptable staleCallbacks ssnA p1
         (preemptees_of (Some (cross_job_filter ''job1'' p1)) ssnA (Nodes ssnA ''n1''))) = None
   \<and> new_calls ssnA (fst (snd (preempt_node staleCallbacks p1 (Some (cross_job_filter ''job1'' p1))
         ''n1'' (ssnA, NewStatement ssnA))))
       = [CallEvict (r1\<lparr>NodeName := ''gone''\<rparr>) (Some NotPlaced)]
   \<and> \<not> LessEqual (InitResreq p1) (FutureIdle (Nodes ssnA ''n1''))
   \<and> \<not> fst (preempt_node staleCallbacks p1 (Some (cross_job_filter ''job1'' p1))
         ''n1'' (ssnA, NewStatement ssnA))
   \<and> Nodes (fst (snd (preempt_node staleCallbacks p1 (Some (cross_job_filter ''job1'' p1))
         ''n1'' (ssnA, NewStatement ssnA)))) = Nodes ssnA
   \<and> validateVictims p1 (Nodes ssnIdle ''n1'')
      (Preemptable priorityCallbacks ssnIdle p1
         (preemptees_of (Some (cross_job_filter ''job1'' p1)) ssnIdle (Nodes ssnIdle ''n1''))) = None
   \<and> LessEqual (InitResreq p1) (FutureIdle (Nodes ssnIdle ''n1''))
   \<and> ''n1'' \<in> set (NodeKeys ssnIdle) \<and> Name (Nodes ssnIdle ''n1'') = ''n1''
   \<and> new_calls ssnIdle (fst (snd (preempt_node priorityCallbacks p1
         (Some (cross_job_filter ''job1'' p1)) ''n1'' (ssnIdle, NewStatement ssnIdle))))
       = [CallPipeline p1 ''n1'' None]
   \<and> operations (snd (snd (preempt_node priorityCallbacks p1
         (Some (cross_job_filter ''job1'' p1)) ''n1'' (ssnIdle, NewStatement ssnIdle))))
       = operations (NewStatement ssnIdle) @ [OpPipeline p1 ''n1'']"
proof -
  let ?flt = "Some (cross_job_filter ''job1'' p1)"
  let ?node = "preempt_node staleCallbacks p1 ?flt ''n1'' (ssnA, NewStatement ssnA)"
  have node: "?node = (fst ?node, fst (snd ?node), snd (snd ?node))"
    by (simp only: prod.collapse)
  have valid: "validateVictims p1 (Nodes ssnA ''n1'')
      (Preemptable staleCallbacks ssnA p1 (preemptees_of ?flt ssnA (Nodes ssnA ''n1''))) = None"
    by code_simp
  have trace: "new_calls ssnA (fst (snd ?node)) = [CallEvict (r1\<lparr>NodeName := ''gone''\<rparr>) (Some NotPlaced)]"
    by code_simp
  have none: "\<forall>t. CallEvict t None \<notin> set (new_calls ssnA (fst (snd ?node)))"
    by (simp only: trace) simp
  have unmet: "\<not> LessEqual (InitResreq p1) (FutureIdle (Nodes ssnA ''n1''))"
    by code_simp
  note inst = no_eviction_succeeds [OF node valid none, of "[]", THEN conjunct1, THEN mp, OF unmet]
  from inst have a: "\<not> fst ?node" by (rule conjunct1)
  from inst have b: "Nodes (fst (snd ?node)) = Nodes ssnA" by blast
  let ?idle = "preempt_node priorityCallbacks p1 ?flt ''n1'' (ssnIdle, NewStatement ssnIdle)"
  have idle: "?idle = (fst ?idle, fst (snd ?idle), snd (snd ?idle))"
    by (simp only: prod.collapse)
  have validI: "validateVictims p1 (Nodes ssnIdle ''n1'')
      (Preemptable priorityCallbacks ssnIdle p1 (preemptees_of ?flt ssnIdle (Nodes ssnIdle ''n1''))) = None"
    by code_simp
  have traceI: "new_calls ssnIdle (fst (snd ?idle)) = [CallPipeline p1 ''n1'' None]"
    by code_simp
  have noneI: "\<forall>t. CallEvict t None \<notin> set (new_calls ssnIdle (fst (snd ?idle)))"
    by (simp only: traceI) simp
  have met: "LessEqual (InitResreq p1) (FutureIdle (Nodes ssnIdle ''n1''))"
    by code_simp
  have key: "''n1'' \<in> set (NodeKeys ssnIdle)" and name: "Name (Nodes ssnIdle ''n1'') = ''n1''"
    by code_simp+
  from key name have stored: "''n1'' \<in> set (NodeKeys ssnIdle) \<and> Name (Nodes ssnIdle ''n1'') = ''n1''"
    by (rule conjI)
  note instI = no_eviction_succeeds [OF idle validI noneI, of "[]", THEN conjunct2, THEN mp, OF met,
    THEN conjunct2, THEN conjunct2, THEN conjunct1, THEN mp, OF stored]
  from instI have c: "operations (snd (snd ?idle))
      = operations (NewStatement ssnIdle) @ [OpPipeline p1 ''n1'']" by (rule conjunct2)
  show ?thesis by (intro conjI valid trace unmet a b validI met key name traceI c)
qed

section \<open>What a preemption attempt leaves alone\<close>

lemma popped_append [simp]: "popped (cs @ ds) = popped cs @ popped ds"
  by (induction cs rule: popped.induct) auto

lemma popped_evicts: "list_all is_evict cs \<Longrightarrow> popped cs = []"
  by (induction cs rule: popped.induct) auto

lemma attempt_evicts: "list_all is_evict cs \<Longrightarrow> list_all is_attempt cs"
  by (induction cs rule: popped.induct) auto

lemma pipeline_evicts: "list_all is_evict cs \<Longrightarrow> \<not> list_ex is_pipeline cs"
  by (induction cs rule: popped.induct) auto

text \<open>What one call of \<open>preempt\<close> adds to the record of calls.\<close>

lemma preempt_calls:
  assumes "preempt cb ssn stmt p flt = (a, ssn', stmt')"
  shows "\<exists>cs. calls ssn' = calls ssn @ cs \<and> list_all is_attempt cs \<and> popped cs = [] \<and>
           (a \<longleftrightarrow> list_ex is_pipeline cs)"
proof -
  from preempt_nodes_calls [OF assms [unfolded preempt_def]]
  obtain cs where cs: "list_all is_evict cs"
    "if a then \<exists>n \<in> set (selectedNodes cb ssn p). \<exists>e.
         calls ssn' = calls ssn @ cs @ [CallPipeline p (Name (Nodes ssn n)) e]
     else calls ssn' = calls ssn @ cs" by blast
  show ?thesis
  proof (cases a)
    case True
    with cs(2) obtain h e where "calls ssn' = calls ssn @ (cs @ [CallPipeline p h e])" by auto
    moreover have "list_all is_attempt (cs @ [CallPipeline p h e])"
      using cs(1) by (simp add: attempt_evicts)
    moreover have "popped (cs @ [CallPipeline p h e]) = []"
      using cs(1) by (simp add: popped_evicts)
    moreover have "list_ex is_pipeline (cs @ [CallPipeline p h e])" by simp
    ultimately show ?thesis using True by blast
  next
    case False
    with cs(2) have "calls ssn' = calls ssn @ cs" by simp
    with cs(1) False show ?thesis
      using attempt_evicts popped_evicts pipeline_evicts by blast
  qed
qed

lemma phase1_tasks_run:
  "phase1_tasks cb j (ssn, stmt, pt, a) = Inr (ssn1, stmt1, pt1, a1) \<Longrightarrow>
     \<exists>cs. calls ssn1 = calls ssn @ cs \<and> list_all is_attempt cs \<and>
       mset (popped cs) + mset (queued pt1) = mset (queued pt) \<and>
       (a1 \<longleftrightarrow> a \<or> list_ex is_pipeline cs) \<and>
       (a1 \<and> \<not> a \<longrightarrow> popped cs \<noteq> [])"
proof (induction cb j "(ssn, stmt, pt, a)" arbitrary: ssn stmt pt a rule: phase1_tasks.induct)
  case (1 cb j ssn stmt pt a)
  let ?uid = "JobUID (Jobs ssn j)"
  have stop: ?case if "ssn1 = ssn" "pt1 = pt" "a1 = a"
  proof -
    from that have "calls ssn1 = calls ssn @ [] \<and> list_all is_attempt [] \<and>
       mset (popped []) + mset (queued pt1) = mset (queued pt) \<and>
       (a1 \<longleftrightarrow> a \<or> list_ex is_pipeline []) \<and> (a1 \<and> \<not> a \<longrightarrow> popped [] \<noteq> [])" by simp
    then show ?thesis by blast
  qed
  show ?case
  proof (cases "JobPipelined cb (Jobs ssn j)")
    case True
    with "1.prems" show ?thesis by (intro stop) simp_all
  next
    case False
    show ?thesis
    proof (cases "map_of pt ?uid")
      case None
      with "1.prems" False show ?thesis by simp
    next
      case (Some q)
      show ?thesis
      proof (cases q)
        case Nil
        with "1.prems" False Some show ?thesis by (intro stop) simp_all
      next
        case (Cons t ts)
        obtain preemptor rest where pop: "Pop (TaskOrderFn cb) t ts = (preemptor, rest)"
          by (cases "Pop (TaskOrderFn cb) t ts")
        let ?ssn0 = "ssn\<lparr>calls := calls ssn @ [PopTask preemptor]\<rparr>"
        obtain preempted ssn' stmt' where pre:
          "preempt cb ?ssn0 stmt preemptor (Some (cross_job_filter j preemptor)) = (preempted, ssn', stmt')"
          by (cases "preempt cb ?ssn0 stmt preemptor (Some (cross_job_filter j preemptor))") auto
        from "1.prems" False Some Cons pop pre
        have rec: "phase1_tasks cb j (ssn', stmt', AList.update ?uid rest pt, a \<or> preempted)
                     = Inr (ssn1, stmt1, pt1, a1)" by simp
        from "1.hyps" [OF False Some Cons pop [symmetric] pre [symmetric] refl rec]
        obtain ds where ds: "calls ssn1 = calls ssn' @ ds" "list_all is_attempt ds"
          "mset (popped ds) + mset (queued pt1) = mset (queued (AList.update ?uid rest pt))"
          "a1 \<longleftrightarrow> (a \<or> preempted) \<or> list_ex is_pipeline ds" by blast
        from preempt_calls [OF pre] obtain cs where cs: "calls ssn' = calls ssn @ PopTask preemptor # cs"
          "list_all is_attempt cs" "popped cs = []" "preempted \<longleftrightarrow> list_ex is_pipeline cs"
          by auto
        let ?all = "PopTask preemptor # cs @ ds"
        have "calls ssn1 = calls ssn @ ?all" using ds(1) cs(1) by simp
        moreover have "list_all is_attempt ?all" using ds(2) cs(2) by simp
        moreover have "mset (popped ?all) + mset (queued pt1) = mset (queued pt)"
          using ds(3) cs(3) queued_pop [OF Some [unfolded Cons] pop] by simp
        moreover have "a1 \<longleftrightarrow> a \<or> list_ex is_pipeline ?all" using ds(4) cs(4) by auto
        moreover have "popped ?all \<noteq> []" by simp
        ultimately show ?thesis by blast
      qed
    qed
  qed
qed

lemma same_frame_refl: "same_frame s s"
  by (simp add: same_frame_def)

lemma same_frame_trans: "same_frame s s' \<Longrightarrow> same_frame s' s'' \<Longrightarrow> same_frame s s''"
  by (simp add: same_frame_def)

lemma same_frame_calls: "same_frame (ssn\<lparr>calls := cs\<rparr>, stmt) s' \<longleftrightarrow> same_frame (ssn, stmt) s'"
  by (simp add: same_frame_def)

lemma Evict_frame:
  "Evict ssn stmt t reason = (e, ssn', stmt') \<Longrightarrow> same_frame (ssn, stmt) (ssn', stmt')"
  by (auto simp: Evict_def Let_def same_frame_def split: if_splits)

lemma Pipeline_frame:
  "Pipeline ssn stmt t h = (e, ssn', stmt') \<Longrightarrow> same_frame (ssn, stmt) (ssn', stmt')"
  by (auto simp: Pipeline_def Let_def same_frame_def set_status_def split: if_splits)

lemma evict_all_frame:
  "evict_all vs (ssn, stmt) = (ssn', stmt') \<Longrightarrow> same_frame (ssn, stmt) (ssn', stmt')"
proof (induction vs arbitrary: ssn stmt)
  case Nil
  then show ?case by (simp add: same_frame_refl)
next
  case (Cons v vs)
  obtain e ssn1 stmt1 where ev: "Evict ssn stmt v ''preempt'' = (e, ssn1, stmt1)"
    by (cases "Evict ssn stmt v ''preempt''") auto
  with Cons.prems have "evict_all vs (ssn1, stmt1) = (ssn', stmt')" by simp
  from same_frame_trans [OF Evict_frame [OF ev] Cons.IH [OF this]] show ?case .
qed

lemma preempt_node_frame:
  assumes "preempt_node cb p flt n (ssn, stmt) = (fit, ssn', stmt')"
  shows "same_frame (ssn, stmt) (ssn', stmt')"
proof -
  let ?victims = "Preemptable cb ssn p (preemptees_of flt ssn (Nodes ssn n))"
  show ?thesis
  proof (cases "validateVictims p (Nodes ssn n) ?victims")
    case (Some err)
    with assms have "ssn' = ssn" "stmt' = stmt" by (simp_all add: preempt_node_def Let_def)
    then show ?thesis by (simp add: same_frame_refl)
  next
    case None
    obtain ssn1 stmt1 where loop:
      "evict_loop cb p n (foldl Push [] ?victims) (ssn, stmt) = (ssn1, stmt1)"
      by (cases "evict_loop cb p n (foldl Push [] ?victims) (ssn, stmt)")
    from evict_loop_run [OF loop] obtain vs where vs: "(ssn1, stmt1) = evict_all vs (ssn, stmt)"
      by blast
    note f1 = evict_all_frame [OF vs [symmetric]]
    show ?thesis
    proof (cases "LessEqual (InitResreq p) (FutureIdle (Nodes ssn1 n))")
      case True
      obtain e ssn2 stmt2 where pl: "Pipeline ssn1 stmt1 p (Name (Nodes ssn1 n)) = (e, ssn2, stmt2)"
        by (cases "Pipeline ssn1 stmt1 p (Name (Nodes ssn1 n))") auto
      with assms None loop True have "ssn' = ssn2" "stmt' = stmt2"
        by (simp_all add: preempt_node_def Let_def)
      with same_frame_trans [OF f1 Pipeline_frame [OF pl]] show ?thesis by simp
    next
      case False
      with assms None loop have "ssn' = ssn1" "stmt' = stmt1"
        by (simp_all add: preempt_node_def Let_def)
      with f1 show ?thesis by simp
    qed
  qed
qed

lemma preempt_nodes_frame:
  "preempt_nodes cb p flt nodes (ssn, stmt) = (a, ssn', stmt') \<Longrightarrow>
     same_frame (ssn, stmt) (ssn', stmt')"
proof (induction nodes arbitrary: ssn stmt)
  case Nil
  then show ?case by (simp add: same_frame_refl)
next
  case (Cons n rest)
  obtain fit ssn1 stmt1 where node: "preempt_node cb p flt n (ssn, stmt) = (fit, ssn1, stmt1)"
    by (cases "preempt_node cb p flt n (ssn, stmt)") auto
  note f1 = preempt_node_frame [OF node]
  show ?case
  proof (cases fit)
    case True
    with Cons.prems node have "ssn' = ssn1" "stmt' = stmt1" by simp_all
    with f1 show ?thesis by simp
  next
    case False
    with Cons.prems node have "preempt_nodes cb p flt rest (ssn1, stmt1) = (a, ssn', stmt')"
      by simp
    from same_frame_trans [OF f1 Cons.IH [OF this]] show ?thesis .
  qed
qed

lemma preempt_frame:
  "preempt cb ssn stmt p flt = (a, ssn', stmt') \<Longrightarrow> same_frame (ssn, stmt) (ssn', stmt')"
  unfolding preempt_def by (rule preempt_nodes_frame)

lemma phase1_tasks_frame:
  "phase1_tasks cb j (ssn, stmt, pt, a) = Inr (ssn1, stmt1, pt1, a1) \<Longrightarrow>
     same_frame (ssn, stmt) (ssn1, stmt1)"
proof (induction cb j "(ssn, stmt, pt, a)" arbitrary: ssn stmt pt a rule: phase1_tasks.induct)
  case (1 cb j ssn stmt pt a)
  let ?uid = "JobUID (Jobs ssn j)"
  show ?case
  proof (cases "JobPipelined cb (Jobs ssn j)")
    case True
    with "1.prems" show ?thesis by (simp add: same_frame_refl)
  next
    case False
    show ?thesis
    proof (cases "map_of pt ?uid")
      case None
      with "1.prems" False show ?thesis by simp
    next
      case (Some q)
      show ?thesis
      proof (cases q)
        case Nil
        with "1.prems" False Some show ?thesis by (simp add: same_frame_refl)
      next
        case (Cons t ts)
        obtain preemptor rest where pop: "Pop (TaskOrderFn cb) t ts = (preemptor, rest)"
          by (cases "Pop (TaskOrderFn cb) t ts")
        let ?ssn0 = "ssn\<lparr>calls := calls ssn @ [PopTask preemptor]\<rparr>"
        obtain preempted ssn' stmt' where pre:
          "preempt cb ?ssn0 stmt preemptor (Some (cross_job_filter j preemptor)) = (preempted, ssn', stmt')"
          by (cases "preempt cb ?ssn0 stmt preemptor (Some (cross_job_filter j preemptor))") auto
        from "1.prems" False Some Cons pop pre
        have rec: "phase1_tasks cb j (ssn', stmt', AList.update ?uid rest pt, a \<or> preempted)
                     = Inr (ssn1, stmt1, pt1, a1)" by simp
        note f2 = "1.hyps" [OF False Some Cons pop [symmetric] pre [symmetric] refl rec]
        from preempt_frame [OF pre] have "same_frame (ssn, stmt) (ssn', stmt')"
          by (simp add: same_frame_calls)
        from same_frame_trans [OF this f2] show ?thesis .
      qed
    qed
  qed
qed

lemma dom_update_grows: "dom (map_of pt) \<subseteq> dom (map_of (AList.update k v pt))"
  by (simp add: update_conv' subset_insertI)

lemma phase1_tasks_returns:
  "JobUID (Jobs ssn j) \<in> dom (map_of pt) \<Longrightarrow>
     \<exists>ssn1 stmt1 pt1 a1. phase1_tasks cb j (ssn, stmt, pt, a) = Inr (ssn1, stmt1, pt1, a1) \<and>
        dom (map_of pt) \<subseteq> dom (map_of pt1)"
proof (induction cb j "(ssn, stmt, pt, a)" arbitrary: ssn stmt pt a rule: phase1_tasks.induct)
  case (1 cb j ssn stmt pt a)
  let ?uid = "JobUID (Jobs ssn j)"
  show ?case
  proof (cases "JobPipelined cb (Jobs ssn j)")
    case True
    then show ?thesis by simp
  next
    case False
    from "1.prems" obtain q where Some: "map_of pt ?uid = Some q" by blast
    show ?thesis
    proof (cases q)
      case Nil
      with False Some show ?thesis by simp
    next
      case (Cons t ts)
      obtain preemptor rest where pop: "Pop (TaskOrderFn cb) t ts = (preemptor, rest)"
        by (cases "Pop (TaskOrderFn cb) t ts")
      let ?ssn0 = "ssn\<lparr>calls := calls ssn @ [PopTask preemptor]\<rparr>"
      let ?pt' = "AList.update ?uid rest pt"
      obtain preempted ssn' stmt' where pre:
        "preempt cb ?ssn0 stmt preemptor (Some (cross_job_filter j preemptor)) = (preempted, ssn', stmt')"
        by (cases "preempt cb ?ssn0 stmt preemptor (Some (cross_job_filter j preemptor))") auto
      from preempt_frame [OF pre] have uid: "JobUID (Jobs ssn' j) = ?uid"
        by (simp add: same_frame_def)
      have grow: "dom (map_of pt) \<subseteq> dom (map_of ?pt')" by (rule dom_update_grows)
      with "1.prems" uid have "JobUID (Jobs ssn' j) \<in> dom (map_of ?pt')"
        by (simp add: subsetD)
      from "1.hyps" [OF False Some Cons pop [symmetric] pre [symmetric] refl this]
      obtain ssn1 stmt1 pt1 a1 where
        rec: "phase1_tasks cb j (ssn', stmt', ?pt', a \<or> preempted) = Inr (ssn1, stmt1, pt1, a1)"
        "dom (map_of ?pt') \<subseteq> dom (map_of pt1)" by blast
      from False Some Cons pop pre rec(1)
      have "phase1_tasks cb j (ssn, stmt, pt, a) = Inr (ssn1, stmt1, pt1, a1)" by simp
      with grow rec(2) show ?thesis by blast
    qed
  qed
qed

lemma attempt_no_commit:
  "list_all is_attempt cs \<Longrightarrow>
     CallCommit \<notin> set cs \<and> CallDiscard \<notin> set cs \<and> PushJob j \<notin> set cs \<and> PopJob j \<notin> set cs"
  by (induction cs rule: popped.induct) auto

section \<open>The first phase: commit or discard\<close>

text \<open>
  Claim C1. Take a round of the first phase: a preemptor job has been popped, a statement
  is opened, and the loop over the job's pending tasks ends with a session \<open>ssn1\<close>, the
  statement \<open>stmt1\<close> and the flag \<open>assigned\<close>; it does end whenever the job has a task
  queue, as every job collected has. Then the round makes exactly one of the
  calls \<open>Commit\<close> and \<open>Discard\<close> on the statement: \<open>Commit\<close> if and only if the job
  is pipelined in \<open>ssn1\<close>, and then the operations of the statement are added to what is
  committed; \<open>Discard\<close> otherwise, and then jobs and nodes are as they were when the
  statement was opened and the job is not put back on the queue of its queue. The job is
  pushed back exactly when it is pipelined and \<open>assigned\<close> is set, which is exactly when
  it is pipelined and one of the attempts of the round made a \<open>Pipeline\<close> call.
\<close>

theorem phase1_commit_iff_pipelined:
  "(JobUID (Jobs ssn preemptorJob) \<in> dom (map_of pt) \<longrightarrow>
      (\<exists>ssn1 stmt1 pt1 assigned. phase1_tasks cb preemptorJob
          (ssn\<lparr>calls := calls ssn @ [PopJob preemptorJob]\<rparr>,
           NewStatement (ssn\<lparr>calls := calls ssn @ [PopJob preemptorJob]\<rparr>), pt, False)
            = Inr (ssn1, stmt1, pt1, assigned)))
   \<and> (phase1_tasks cb preemptorJob
      (ssn\<lparr>calls := calls ssn @ [PopJob preemptorJob]\<rparr>,
       NewStatement (ssn\<lparr>calls := calls ssn @ [PopJob preemptorJob]\<rparr>), pt, False)
        = Inr (ssn1, stmt1, pt1, assigned) \<longrightarrow>
    (\<exists>ssn' pm'.
     phase1_job cb queue preemptorJob rest (ssn, pm, pt) = Inr (ssn', pm', pt1)
     \<and> (CallCommit \<in> set (new_calls ssn ssn') \<longleftrightarrow> JobPipelined cb (Jobs ssn1 preemptorJob))
     \<and> (CallDiscard \<in> set (new_calls ssn ssn') \<longleftrightarrow> \<not> JobPipelined cb (Jobs ssn1 preemptorJob))
     \<and> (PushJob preemptorJob \<in> set (new_calls ssn ssn') \<longleftrightarrow>
          JobPipelined cb (Jobs ssn1 preemptorJob) \<and> assigned)
     \<and> (assigned \<longleftrightarrow> list_ex is_pipeline (new_calls ssn ssn'))
     \<and> (JobPipelined cb (Jobs ssn1 preemptorJob) \<longrightarrow>
          committed ssn' = committed ssn @ operations stmt1 \<and>
          Jobs ssn' = Jobs ssn1 \<and> Nodes ssn' = Nodes ssn1 \<and>
          map_of pm' (QueueUID queue) = Some (if assigned then rest @ [preemptorJob] else rest))
     \<and> (\<not> JobPipelined cb (Jobs ssn1 preemptorJob) \<longrightarrow>
          committed ssn' = committed ssn \<and> Jobs ssn' = Jobs ssn \<and> Nodes ssn' = Nodes ssn \<and>
          map_of pm' (QueueUID queue) = Some rest)))"
proof (intro conjI impI)
  assume "JobUID (Jobs ssn preemptorJob) \<in> dom (map_of pt)"
  then have "JobUID (Jobs (ssn\<lparr>calls := calls ssn @ [PopJob preemptorJob]\<rparr>) preemptorJob)
      \<in> dom (map_of pt)" by simp
  from phase1_tasks_returns [OF this]
  show "\<exists>ssn1 stmt1 pt1 assigned. phase1_tasks cb preemptorJob
          (ssn\<lparr>calls := calls ssn @ [PopJob preemptorJob]\<rparr>,
           NewStatement (ssn\<lparr>calls := calls ssn @ [PopJob preemptorJob]\<rparr>), pt, False)
            = Inr (ssn1, stmt1, pt1, assigned)" by blast
next
  assume inner: "phase1_tasks cb preemptorJob
      (ssn\<lparr>calls := calls ssn @ [PopJob preemptorJob]\<rparr>,
       NewStatement (ssn\<lparr>calls := calls ssn @ [PopJob preemptorJob]\<rparr>), pt, False)
        = Inr (ssn1, stmt1, pt1, assigned)"
  show "\<exists>ssn' pm'.
     phase1_job cb queue preemptorJob rest (ssn, pm, pt) = Inr (ssn', pm', pt1)
     \<and> (CallCommit \<in> set (new_calls ssn ssn') \<longleftrightarrow> JobPipelined cb (Jobs ssn1 preemptorJob))
     \<and> (CallDiscard \<in> set (new_calls ssn ssn') \<longleftrightarrow> \<not> JobPipelined cb (Jobs ssn1 preemptorJob))
     \<and> (PushJob preemptorJob \<in> set (new_calls ssn ssn') \<longleftrightarrow>
          JobPipelined cb (Jobs ssn1 preemptorJob) \<and> assigned)
     \<and> (assigned \<longleftrightarrow> list_ex is_pipeline (new_calls ssn ssn'))
     \<and> (JobPipelined cb (Jobs ssn1 preemptorJob) \<longrightarrow>
          committed ssn' = committed ssn @ operations stmt1 \<and>
          Jobs ssn' = Jobs ssn1 \<and> Nodes ssn' = Nodes ssn1 \<and>
          map_of pm' (QueueUID queue) = Some (if assigned then rest @ [preemptorJob] else rest))
     \<and> (\<not> JobPipelined cb (Jobs ssn1 preemptorJob) \<longrightarrow>
          committed ssn' = committed ssn \<and> Jobs ssn' = Jobs ssn \<and> Nodes ssn' = Nodes ssn \<and>
          map_of pm' (QueueUID queue) = Some rest)"
  proof -
    let ?ssn0 = "ssn\<lparr>calls := calls ssn @ [PopJob preemptorJob]\<rparr>"
    let ?pm1 = "AList.update (QueueUID queue) rest pm"
    from phase1_tasks_run [OF inner] obtain cs where
      cs: "calls ssn1 = calls ssn @ PopJob preemptorJob # cs" "list_all is_attempt cs"
        "assigned \<longleftrightarrow> list_ex is_pipeline cs" by auto
    note no = attempt_no_commit [OF cs(2), of preemptorJob]
    from phase1_tasks_frame [OF inner]
    have frame: "openJobs stmt1 = Jobs ssn" "openNodes stmt1 = Nodes ssn"
      "committed ssn1 = committed ssn"
      by (simp_all add: same_frame_def NewStatement_def)
    show ?thesis
    proof (cases "JobPipelined cb (Jobs ssn1 preemptorJob)")
      case False
      let ?ssn' = "Discard ssn1 stmt1"
      from inner False have body: "phase1_job cb queue preemptorJob rest (ssn, pm, pt) = Inr (?ssn', ?pm1, pt1)"
        by (simp add: phase1_job_def Let_def)
      have tr: "new_calls ssn ?ssn' = PopJob preemptorJob # cs @ [CallDiscard]"
        using cs(1) by (simp add: new_calls_def Discard_def)
      have "CallCommit \<notin> set (new_calls ssn ?ssn')" "CallDiscard \<in> set (new_calls ssn ?ssn')"
        "PushJob preemptorJob \<notin> set (new_calls ssn ?ssn')"
        "assigned \<longleftrightarrow> list_ex is_pipeline (new_calls ssn ?ssn')"
        using no cs(3) by (simp_all add: tr)
      moreover have "committed ?ssn' = committed ssn" "Jobs ?ssn' = Jobs ssn" "Nodes ?ssn' = Nodes ssn"
        using frame by (simp_all add: Discard_def)
      moreover have "map_of ?pm1 (QueueUID queue) = Some rest" by (simp add: update_conv')
      ultimately show ?thesis using body False by blast
    next
      case True
      show ?thesis
      proof (cases assigned)
        case False
        let ?ssn' = "Commit ssn1 stmt1"
        from inner True False
        have body: "phase1_job cb queue preemptorJob rest (ssn, pm, pt) = Inr (?ssn', ?pm1, pt1)"
          by (simp add: phase1_job_def Let_def)
        have tr: "new_calls ssn ?ssn' = PopJob preemptorJob # cs @ [CallCommit]"
          using cs(1) by (simp add: new_calls_def Commit_def)
        have "CallCommit \<in> set (new_calls ssn ?ssn')" "CallDiscard \<notin> set (new_calls ssn ?ssn')"
          "PushJob preemptorJob \<notin> set (new_calls ssn ?ssn')"
          "assigned \<longleftrightarrow> list_ex is_pipeline (new_calls ssn ?ssn')"
          using no cs(3) by (simp_all add: tr)
        moreover have "committed ?ssn' = committed ssn @ operations stmt1" "Jobs ?ssn' = Jobs ssn1"
          "Nodes ?ssn' = Nodes ssn1"
          using frame by (simp_all add: Commit_def)
        moreover have "map_of ?pm1 (QueueUID queue) = Some rest" by (simp add: update_conv')
        ultimately show ?thesis using body True False by auto
      next
        case assigned: True
        let ?ssn2 = "Commit ssn1 stmt1"
        let ?ssn' = "?ssn2\<lparr>calls := calls ?ssn2 @ [PushJob preemptorJob]\<rparr>"
        let ?pm' = "AList.update (QueueUID queue) (Push rest preemptorJob) ?pm1"
        from inner True assigned
        have body: "phase1_job cb queue preemptorJob rest (ssn, pm, pt) = Inr (?ssn', ?pm', pt1)"
          by (simp add: phase1_job_def Let_def)
        have tr: "new_calls ssn ?ssn' = PopJob preemptorJob # cs @ [CallCommit, PushJob preemptorJob]"
          using cs(1) by (simp add: new_calls_def Commit_def)
        have "CallCommit \<in> set (new_calls ssn ?ssn')" "CallDiscard \<notin> set (new_calls ssn ?ssn')"
          "PushJob preemptorJob \<in> set (new_calls ssn ?ssn')"
          "assigned \<longleftrightarrow> list_ex is_pipeline (new_calls ssn ?ssn')"
          using no cs(3) by (simp_all add: tr)
        moreover have "committed ?ssn' = committed ssn @ operations stmt1" "Jobs ?ssn' = Jobs ssn1"
          "Nodes ?ssn' = Nodes ssn1"
          using frame by (simp_all add: Commit_def)
        moreover have "map_of ?pm' (QueueUID queue) = Some (rest @ [preemptorJob])"
          by (simp add: update_conv' Push_def)
        ultimately show ?thesis using body True assigned by auto
      qed
    qed
  qed
qed

theorem phase1_commit_iff_pipelined_witness:
  "JobPipelined priorityCallbacks
      (Jobs (fst (projr (phase1_tasks priorityCallbacks ''job1''
         (ssnA\<lparr>calls := calls ssnA @ [PopJob ''job1'']\<rparr>,
          NewStatement (ssnA\<lparr>calls := calls ssnA @ [PopJob ''job1'']\<rparr>),
          [(''job1'', [p1])], False)))) ''job1'')
   \<and> CallCommit \<in> set (new_calls ssnA (fst (projr (phase1_job priorityCallbacks queue1 ''job1'' []
         (ssnA, [(''q1'', [''job1''])], [(''job1'', [p1])])))))
   \<and> PushJob ''job1'' \<in> set (new_calls ssnA (fst (projr (phase1_job priorityCallbacks queue1 ''job1'' []
         (ssnA, [(''q1'', [''job1''])], [(''job1'', [p1])])))))
   \<and> \<not> JobPipelined priorityCallbacks
      (Jobs (fst (projr (phase1_tasks priorityCallbacks ''job1''
         (ssnB\<lparr>calls := calls ssnB @ [PopJob ''job1'']\<rparr>,
          NewStatement (ssnB\<lparr>calls := calls ssnB @ [PopJob ''job1'']\<rparr>),
          [(''job1'', [p1])], False)))) ''job1'')
   \<and> CallDiscard \<in> set (new_calls ssnB (fst (projr (phase1_job priorityCallbacks queue1 ''job1'' []
         (ssnB, [(''q1'', [''job1''])], [(''job1'', [p1])])))))
   \<and> Nodes (fst (projr (phase1_job priorityCallbacks queue1 ''job1'' []
         (ssnB, [(''q1'', [''job1''])], [(''job1'', [p1])])))) = Nodes ssnB"
proof -
  let ?pm = "[(''q1'', [''job1''])]"
  let ?pt = "[(''job1'', [p1])]"
  let ?innerA = "phase1_tasks priorityCallbacks ''job1''
         (ssnA\<lparr>calls := calls ssnA @ [PopJob ''job1'']\<rparr>,
          NewStatement (ssnA\<lparr>calls := calls ssnA @ [PopJob ''job1'']\<rparr>), ?pt, False)"
  let ?innerB = "phase1_tasks priorityCallbacks ''job1''
         (ssnB\<lparr>calls := calls ssnB @ [PopJob ''job1'']\<rparr>,
          NewStatement (ssnB\<lparr>calls := calls ssnB @ [PopJob ''job1'']\<rparr>), ?pt, False)"
  let ?bodyA = "phase1_job priorityCallbacks queue1 ''job1'' [] (ssnA, ?pm, ?pt)"
  let ?bodyB = "phase1_job priorityCallbacks queue1 ''job1'' [] (ssnB, ?pm, ?pt)"
  have "\<not> isl ?innerA" by code_simp
  from sum.collapse(2) [OF this] have "?innerA = Inr (projr ?innerA)" by (rule sym)
  then have innerA: "?innerA = Inr (fst (projr ?innerA), fst (snd (projr ?innerA)),
       fst (snd (snd (projr ?innerA))), snd (snd (snd (projr ?innerA))))"
    by (simp only: prod.collapse)
  have "\<not> isl ?innerB" by code_simp
  from sum.collapse(2) [OF this] have "?innerB = Inr (projr ?innerB)" by (rule sym)
  then have innerB: "?innerB = Inr (fst (projr ?innerB), fst (snd (projr ?innerB)),
       fst (snd (snd (projr ?innerB))), snd (snd (snd (projr ?innerB))))"
    by (simp only: prod.collapse)
  have pipeA: "JobPipelined priorityCallbacks (Jobs (fst (projr ?innerA)) ''job1'')"
    by code_simp
  have assignedA: "snd (snd (snd (projr ?innerA)))" by code_simp
  have pipeB: "\<not> JobPipelined priorityCallbacks (Jobs (fst (projr ?innerB)) ''job1'')"
    by code_simp
  from phase1_commit_iff_pipelined [THEN conjunct2, THEN mp, OF innerA, of queue1 "[]" ?pm]
  obtain ssnA' pmA' where A: "?bodyA = Inr (ssnA', pmA', fst (snd (snd (projr ?innerA))))"
    "CallCommit \<in> set (new_calls ssnA ssnA') \<longleftrightarrow>
       JobPipelined priorityCallbacks (Jobs (fst (projr ?innerA)) ''job1'')"
    "PushJob ''job1'' \<in> set (new_calls ssnA ssnA') \<longleftrightarrow>
       JobPipelined priorityCallbacks (Jobs (fst (projr ?innerA)) ''job1'')
       \<and> snd (snd (snd (projr ?innerA)))"
    by blast
  from A(1) have sA: "fst (projr ?bodyA) = ssnA'" by simp
  from phase1_commit_iff_pipelined [THEN conjunct2, THEN mp, OF innerB, of queue1 "[]" ?pm]
  obtain ssnB' pmB' where B: "?bodyB = Inr (ssnB', pmB', fst (snd (snd (projr ?innerB))))"
    "CallDiscard \<in> set (new_calls ssnB ssnB') \<longleftrightarrow>
       \<not> JobPipelined priorityCallbacks (Jobs (fst (projr ?innerB)) ''job1'')"
    "\<not> JobPipelined priorityCallbacks (Jobs (fst (projr ?innerB)) ''job1'') \<longrightarrow>
       Nodes ssnB' = Nodes ssnB"
    by blast
  from B(1) have sB: "fst (projr ?bodyB) = ssnB'" by simp
  have c1: "CallCommit \<in> set (new_calls ssnA (fst (projr ?bodyA)))"
    using A(2) pipeA unfolding sA by blast
  have c2: "PushJob ''job1'' \<in> set (new_calls ssnA (fst (projr ?bodyA)))"
    using A(3) pipeA assignedA unfolding sA by blast
  have c3: "CallDiscard \<in> set (new_calls ssnB (fst (projr ?bodyB)))"
    using B(2) pipeB unfolding sB by blast
  have c4: "Nodes (fst (projr ?bodyB)) = Nodes ssnB"
    using B(3) pipeB unfolding sB by blast
  show ?thesis by (intro conjI pipeA c1 c2 pipeB c3 c4)
qed

section \<open>The second phase: every statement is committed\<close>

lemma preempt_calls_shape:
  assumes "preempt cb ssn stmt p flt = (a, ssn', stmt')"
  shows "\<exists>cs. list_all is_evict cs \<and>
           (if a then \<exists>h e. calls ssn' = calls ssn @ cs @ [CallPipeline p h e]
            else calls ssn' = calls ssn @ cs)"
proof -
  from preempt_nodes_calls [OF assms [unfolded preempt_def]]
  obtain cs where cs: "list_all is_evict cs"
    "if a then \<exists>n \<in> set (selectedNodes cb ssn p). \<exists>e.
         calls ssn' = calls ssn @ cs @ [CallPipeline p (Name (Nodes ssn n)) e]
     else calls ssn' = calls ssn @ cs" by blast
  from cs(2) have "if a then \<exists>h e. calls ssn' = calls ssn @ cs @ [CallPipeline p h e]
            else calls ssn' = calls ssn @ cs"
    by (auto split: if_splits)
  with cs(1) show ?thesis by blast
qed

lemma phase2_tasks_run:
  "phase2_tasks cb job (ssn, pt) = (ssn', pt') \<Longrightarrow>
     \<exists>cs. calls ssn' = calls ssn @ cs \<and> phase2_run cs \<and>
       mset (popped cs) + mset (queued pt') = mset (queued pt) \<and>
       (\<forall>k. JobUID (Jobs ssn' k) = JobUID (Jobs ssn k)) \<and>
       (map_of pt' (JobUID (Jobs ssn job)) = None \<or> map_of pt' (JobUID (Jobs ssn job)) = Some [] \<or>
        (\<exists>pre p es. list_all is_evict es \<and> cs = pre @ PopTask p # es @ [CallCommit]))"
proof (induction cb job "(ssn, pt)" arbitrary: ssn pt rule: phase2_tasks.induct)
  case (1 cb job ssn pt)
  let ?uid = "JobUID (Jobs ssn job)"
  have stop: ?case if "ssn' = ssn" "pt' = pt"
    "map_of pt ?uid = None \<or> map_of pt ?uid = Some []"
  proof -
    from that have "calls ssn' = calls ssn @ [] \<and> phase2_run [] \<and>
       mset (popped []) + mset (queued pt') = mset (queued pt) \<and>
       (\<forall>k. JobUID (Jobs ssn' k) = JobUID (Jobs ssn k)) \<and>
       (map_of pt' ?uid = None \<or> map_of pt' ?uid = Some [] \<or>
        (\<exists>pre p es. list_all is_evict es \<and> [] = pre @ PopTask p # es @ [CallCommit]))"
      by (simp add: phase2_run.finished)
    then show ?thesis by blast
  qed
  show ?case
  proof (cases "map_of pt ?uid")
    case None
    with "1.prems" show ?thesis by (intro stop) simp_all
  next
    case (Some q)
    show ?thesis
    proof (cases q)
      case Nil
      with "1.prems" Some show ?thesis by (intro stop) simp_all
    next
      case (Cons t ts)
      obtain preemptor rest where pop: "Pop (TaskOrderFn cb) t ts = (preemptor, rest)"
        by (cases "Pop (TaskOrderFn cb) t ts")
      let ?ssn0 = "ssn\<lparr>calls := calls ssn @ [PopTask preemptor]\<rparr>"
      let ?pt1 = "AList.update ?uid rest pt"
      obtain a ssn1 stmt1 where pre:
        "preempt cb ?ssn0 (NewStatement ?ssn0) preemptor (Some (intra_job_filter preemptor))
           = (a, ssn1, stmt1)"
        by (cases "preempt cb ?ssn0 (NewStatement ?ssn0) preemptor (Some (intra_job_filter preemptor))")
          auto
      from preempt_calls_shape [OF pre] obtain es where es: "list_all is_evict es"
        "if a then \<exists>h e. calls ssn1 = calls ssn @ PopTask preemptor # es @ [CallPipeline preemptor h e]
         else calls ssn1 = calls ssn @ PopTask preemptor # es"
        by (auto split: if_splits)
      from preempt_frame [OF pre] have uid1: "\<And>k. JobUID (Jobs ssn1 k) = JobUID (Jobs ssn k)"
        by (simp add: same_frame_def)
      note q1 = queued_pop [OF Some [unfolded Cons] pop]
      show ?thesis
      proof (cases a)
        case False
        with "1.prems" Some Cons pop pre have r: "ssn' = Commit ssn1 stmt1" "pt' = ?pt1" by simp_all
        let ?cs = "PopTask preemptor # es @ [CallCommit]"
        from es(2) False r have "calls ssn' = calls ssn @ ?cs" by (simp add: Commit_def)
        moreover have "phase2_run ?cs" using es(1) by (rule phase2_run.failed)
        moreover have "mset (popped ?cs) + mset (queued pt') = mset (queued pt)"
          using q1 r es(1) by (simp add: popped_evicts)
        moreover have "\<forall>k. JobUID (Jobs ssn' k) = JobUID (Jobs ssn k)"
          using uid1 r by (simp add: Commit_def)
        moreover have "\<exists>pre p es'. list_all is_evict es' \<and> ?cs = pre @ PopTask p # es' @ [CallCommit]"
          using es(1) by (intro exI [of _ "[]"] exI [of _ preemptor] exI [of _ es]) simp
        ultimately show ?thesis by blast
      next
        case True
        with "1.prems" Some Cons pop pre
        have rec: "phase2_tasks cb job (Commit ssn1 stmt1, ?pt1) = (ssn', pt')" by simp
        from True have nf: "\<not> \<not> a" by simp
        from "1.hyps" [OF Some Cons pop [symmetric] pre [symmetric] refl nf rec]
        obtain ds where ds: "calls ssn' = calls (Commit ssn1 stmt1) @ ds" "phase2_run ds"
          "mset (popped ds) + mset (queued pt') = mset (queued ?pt1)"
          "\<forall>k. JobUID (Jobs ssn' k) = JobUID (Jobs (Commit ssn1 stmt1) k)"
          "map_of pt' (JobUID (Jobs (Commit ssn1 stmt1) job)) = None \<or>
           map_of pt' (JobUID (Jobs (Commit ssn1 stmt1) job)) = Some [] \<or>
           (\<exists>pre p es. list_all is_evict es \<and> ds = pre @ PopTask p # es @ [CallCommit])"
          by blast
        from es(2) True obtain h e where
          c1: "calls ssn1 = calls ssn @ PopTask preemptor # es @ [CallPipeline preemptor h e]"
          by auto
        let ?cs = "PopTask preemptor # es @ [CallPipeline preemptor h e, CallCommit] @ ds"
        have "calls ssn' = calls ssn @ ?cs" using ds(1) c1 by (simp add: Commit_def)
        moreover have "phase2_run ?cs" using es(1) ds(2) by (rule phase2_run.assigned)
        moreover have "mset (popped ?cs) + mset (queued pt') = mset (queued pt)"
          using q1 ds(3) es(1) by (simp add: popped_evicts)
        moreover have u: "\<forall>k. JobUID (Jobs ssn' k) = JobUID (Jobs ssn k)"
          using uid1 ds(4) by (simp add: Commit_def)
        moreover have "map_of pt' ?uid = None \<or> map_of pt' ?uid = Some [] \<or>
           (\<exists>pre p es'. list_all is_evict es' \<and> ?cs = pre @ PopTask p # es' @ [CallCommit])"
        proof -
          have same: "JobUID (Jobs (Commit ssn1 stmt1) job) = ?uid"
            using uid1 by (simp add: Commit_def)
          from ds(5) [unfolded same] show ?thesis
          proof (elim disjE exE conjE)
            fix pre p es'
            assume "list_all is_evict es'" "ds = pre @ PopTask p # es' @ [CallCommit]"
            then have "list_all is_evict es' \<and> ?cs =
               (PopTask preemptor # es @ [CallPipeline preemptor h e, CallCommit] @ pre)
                 @ PopTask p # es' @ [CallCommit]" by simp
            then show ?thesis by blast
          qed simp_all
        qed
        ultimately show ?thesis by blast
      qed
    qed
  qed
qed

lemma phase2_run_commits:
  "phase2_run cs \<Longrightarrow>
     CallDiscard \<notin> set cs \<and> length (filter (\<lambda>c. c = CallCommit) cs) = length (popped cs)"
proof (induction rule: phase2_run.induct)
  case finished
  show ?case by simp
next
  case (failed cs p)
  have "list_all is_evict cs \<Longrightarrow> CallDiscard \<notin> set cs \<and> filter (\<lambda>c. c = CallCommit) cs = []"
    by (induction cs rule: popped.induct) auto
  with failed show ?case by (simp add: popped_evicts)
next
  case (assigned cs rest p h e)
  have "list_all is_evict cs \<Longrightarrow> CallDiscard \<notin> set cs \<and> filter (\<lambda>c. c = CallCommit) cs = []"
    by (induction cs rule: popped.induct) auto
  with assigned show ?case by (simp add: popped_evicts)
qed

text \<open>
  Claim C7. In the second phase, for every job under request, the calls of the loop over
  the job's pending tasks are a sequence of attempts: each attempt pops a preemptor, calls
  \<open>preempt\<close> on a new statement and commits that statement, whether \<open>preempt\<close> returned
  true or false and whether the statement holds operations or not; no statement is
  discarded, and there are as many commits as preemptors popped. An attempt that returns
  false is the last one, and the loop ends only after such an attempt or when the job has
  no task queue or an empty one.
\<close>

theorem phase2_always_commits:
  assumes "phase2_tasks cb job (ssn, pt) = (ssn', pt')"
  shows "phase2_run (new_calls ssn ssn')
     \<and> CallDiscard \<notin> set (new_calls ssn ssn')
     \<and> length (filter (\<lambda>c. c = CallCommit) (new_calls ssn ssn')) = length (popped (new_calls ssn ssn'))
     \<and> (map_of pt' (JobUID (Jobs ssn job)) = None \<or> map_of pt' (JobUID (Jobs ssn job)) = Some [] \<or>
         (\<exists>pre p es. list_all is_evict es \<and> new_calls ssn ssn' = pre @ PopTask p # es @ [CallCommit]))
     \<and> (map_of pt (JobUID (Jobs ssn job)) = Some (t # ts) \<and>
        Pop (TaskOrderFn cb) t ts = (preemptor, rest) \<and>
        preempt cb (ssn\<lparr>calls := calls ssn @ [PopTask preemptor]\<rparr>)
          (NewStatement (ssn\<lparr>calls := calls ssn @ [PopTask preemptor]\<rparr>)) preemptor
          (Some (intra_job_filter preemptor)) = (a, ssn1, stmt1) \<longrightarrow>
          committed (Commit ssn1 stmt1) = committed ssn @ operations stmt1 \<and>
          (ssn', pt') =
            (if a then phase2_tasks cb job
                         (Commit ssn1 stmt1, AList.update (JobUID (Jobs ssn job)) rest pt)
             else (Commit ssn1 stmt1, AList.update (JobUID (Jobs ssn job)) rest pt)))"
proof -
  from phase2_tasks_run [OF assms] obtain cs where cs: "calls ssn' = calls ssn @ cs"
    "phase2_run cs"
    "map_of pt' (JobUID (Jobs ssn job)) = None \<or> map_of pt' (JobUID (Jobs ssn job)) = Some [] \<or>
        (\<exists>pre p es. list_all is_evict es \<and> cs = pre @ PopTask p # es @ [CallCommit])"
    by blast
  from cs(1) have nc: "new_calls ssn ssn' = cs" by (rule new_calls_append)
  have step: "committed (Commit ssn1 stmt1) = committed ssn @ operations stmt1 \<and>
          (ssn', pt') =
            (if a then phase2_tasks cb job
                         (Commit ssn1 stmt1, AList.update (JobUID (Jobs ssn job)) rest pt)
             else (Commit ssn1 stmt1, AList.update (JobUID (Jobs ssn job)) rest pt))"
    if q: "map_of pt (JobUID (Jobs ssn job)) = Some (t # ts)"
      and pop: "Pop (TaskOrderFn cb) t ts = (preemptor, rest)"
      and pre: "preempt cb (ssn\<lparr>calls := calls ssn @ [PopTask preemptor]\<rparr>)
          (NewStatement (ssn\<lparr>calls := calls ssn @ [PopTask preemptor]\<rparr>)) preemptor
          (Some (intra_job_filter preemptor)) = (a, ssn1, stmt1)"
  proof -
    from preempt_frame [OF pre] have "committed ssn1 = committed ssn"
      by (simp add: same_frame_def)
    then have "committed (Commit ssn1 stmt1) = committed ssn @ operations stmt1"
      by (simp add: Commit_def)
    moreover have "phase2_tasks cb job (ssn, pt) =
            (if a then phase2_tasks cb job
                         (Commit ssn1 stmt1, AList.update (JobUID (Jobs ssn job)) rest pt)
             else (Commit ssn1 stmt1, AList.update (JobUID (Jobs ssn job)) rest pt))"
      by (subst phase2_tasks.simps) (simp add: q pop pre del: phase2_tasks.simps)
    with assms have "(ssn', pt') =
            (if a then phase2_tasks cb job
                         (Commit ssn1 stmt1, AList.update (JobUID (Jobs ssn job)) rest pt)
             else (Commit ssn1 stmt1, AList.update (JobUID (Jobs ssn job)) rest pt))"
      by (simp del: phase2_tasks.simps)
    ultimately show ?thesis by blast
  qed
  from phase2_run_commits [OF cs(2)] cs(2,3) step show ?thesis
    unfolding nc by blast
qed

theorem phase2_always_commits_witness:
  "new_calls ssnA (fst (phase2_tasks priorityCallbacks ''job1'' (ssnA, [(''job1'', [p1])])))
     = [PopTask p1, CallCommit]
   \<and> phase2_run [PopTask p1, CallCommit]
   \<and> committed (fst (phase2_tasks priorityCallbacks ''job1'' (ssnA, [(''job1'', [p1])]))) = []
   \<and> new_calls ssnD (fst (phase2_tasks priorityCallbacks ''job1'' (ssnD, [(''job1'', [pD])])))
     = [PopTask pD, CallEvict sD None, CallPipeline pD ''n1'' None, CallCommit]
   \<and> phase2_run [PopTask pD, CallEvict sD None, CallPipeline pD ''n1'' None, CallCommit]
   \<and> committed (fst (phase2_tasks priorityCallbacks ''job1'' (ssnD, [(''job1'', [pD])])))
     = [OpEvict sD ''preempt'', OpPipeline pD ''n1'']"
proof -
  let ?runA = "phase2_tasks priorityCallbacks ''job1'' (ssnA, [(''job1'', [p1])])"
  let ?runD = "phase2_tasks priorityCallbacks ''job1'' (ssnD, [(''job1'', [pD])])"
  have runA: "?runA = (fst ?runA, snd ?runA)" by (simp only: prod.collapse)
  have runD: "?runD = (fst ?runD, snd ?runD)" by (simp only: prod.collapse)
  have a1: "new_calls ssnA (fst ?runA) = [PopTask p1, CallCommit]" by code_simp
  have a2: "committed (fst ?runA) = []" by code_simp
  have d1: "new_calls ssnD (fst ?runD)
     = [PopTask pD, CallEvict sD None, CallPipeline pD ''n1'' None, CallCommit]" by code_simp
  have d2: "committed (fst ?runD) = [OpEvict sD ''preempt'', OpPipeline pD ''n1'']" by code_simp
  from phase2_always_commits [OF runA, THEN conjunct1]
  have a3: "phase2_run [PopTask p1, CallCommit]" unfolding a1 .
  from phase2_always_commits [OF runD, THEN conjunct1]
  have d3: "phase2_run [PopTask pD, CallEvict sD None, CallPipeline pD ''n1'' None, CallCommit]"
    unfolding d1 .
  show ?thesis by (intro conjI a1 a2 a3 d1 d2 d3)
qed

section \<open>Popped and waiting tasks\<close>

lemma pops_from_refl: "pops_from s s"
  by (simp add: pops_from_def)

lemma pops_from_trans:
  assumes "pops_from s s'" and "pops_from s' s''"
  shows "pops_from s s''"
proof -
  from assms obtain cs ds where cs: "calls (fst s') = calls (fst s) @ cs"
    "mset (popped cs) + mset (queued (snd s')) = mset (queued (snd s))"
    and ds: "calls (fst s'') = calls (fst s') @ ds"
    "mset (popped ds) + mset (queued (snd s'')) = mset (queued (snd s'))"
    unfolding pops_from_def by blast
  from cs(1) ds(1) have "calls (fst s'') = calls (fst s) @ (cs @ ds)" by simp
  moreover from cs(2) ds(2)
  have "mset (popped (cs @ ds)) + mset (queued (snd s'')) = mset (queued (snd s))"
    by (simp add: add.assoc)
  ultimately show ?thesis unfolding pops_from_def by blast
qed

lemma pops_from_new_calls:
  "pops_from (ssn, pt) (ssn', pt') \<Longrightarrow>
     mset (popped (new_calls ssn ssn')) + mset (queued pt') = mset (queued pt)"
  by (auto simp: pops_from_def new_calls_def)

lemma phase1_job_pops:
  assumes "phase1_job cb queue j rest (ssn, pm, pt) = Inr (ssn', pm', pt')"
  shows "pops_from (ssn, pt) (ssn', pt')"
proof -
  let ?ssn0 = "ssn\<lparr>calls := calls ssn @ [PopJob j]\<rparr>"
  obtain ssn1 stmt1 pt1 a1 where inner:
    "phase1_tasks cb j (?ssn0, NewStatement ?ssn0, pt, False) = Inr (ssn1, stmt1, pt1, a1)"
    using assms by (auto simp: phase1_job_def Let_def split: sum.splits)
  from phase1_tasks_run [OF inner] obtain cs where
    cs: "calls ssn1 = calls ssn @ PopJob j # cs"
      "mset (popped cs) + mset (queued pt1) = mset (queued pt)"
    by auto
  from assms inner have pt': "pt' = pt1"
    by (auto simp: phase1_job_def Let_def split: if_splits)
  from assms inner obtain ds where ds: "calls ssn' = calls ssn1 @ ds" "popped ds = []"
    by (auto simp: phase1_job_def Let_def Commit_def Discard_def split: if_splits)
  from cs(1) ds have "calls ssn' = calls ssn @ (PopJob j # cs @ ds)"
    "popped (PopJob j # cs @ ds) = popped cs" by simp_all
  with cs(2) pt' show ?thesis unfolding pops_from_def by (metis fst_conv snd_conv)
qed

lemma phase1_pops:
  "phase1 cb queue (ssn, pm, pt) = Inr (ssn', pm', pt') \<Longrightarrow> pops_from (ssn, pt) (ssn', pt')"
proof (induction cb queue "(ssn, pm, pt)" arbitrary: ssn pm pt rule: phase1.induct)
  case (1 cb queue ssn pm pt)
  show ?case
  proof (cases "map_of pm (QueueUID queue)")
    case None
    with "1.prems" show ?thesis by (simp add: pops_from_refl)
  next
    case (Some q)
    show ?thesis
    proof (cases q)
      case Nil
      with "1.prems" Some show ?thesis by (simp add: pops_from_refl)
    next
      case (Cons j js)
      obtain preemptorJob rest where
        pop: "Pop (\<lambda>l r. JobOrderFn cb (Jobs ssn l) (Jobs ssn r)) j js = (preemptorJob, rest)"
        by (cases "Pop (\<lambda>l r. JobOrderFn cb (Jobs ssn l) (Jobs ssn r)) j js")
      from "1.prems" Some Cons pop obtain ssn1 pm1 pt1 where
        body: "phase1_job cb queue preemptorJob rest (ssn, pm, pt) = Inr (ssn1, pm1, pt1)"
        by (auto split: sum.splits)
      with "1.prems" Some Cons pop
      have rec: "phase1 cb queue (ssn1, pm1, pt1) = Inr (ssn', pm', pt')" by simp
      from pops_from_trans [OF phase1_job_pops [OF body]
          "1.hyps" [OF Some Cons pop [symmetric] body rec]]
      show ?thesis .
    qed
  qed
qed

lemma phase2_tasks_pops:
  "phase2_tasks cb job (ssn, pt) = (ssn', pt') \<Longrightarrow> pops_from (ssn, pt) (ssn', pt')"
  using phase2_tasks_run [of cb job ssn pt ssn' pt'] unfolding pops_from_def by auto

lemma phase2_pops:
  "phase2 cb jobs (ssn, pt) = (ssn', pt') \<Longrightarrow> pops_from (ssn, pt) (ssn', pt')"
proof (induction jobs arbitrary: ssn pt)
  case Nil
  then show ?case by (simp add: phase2_def pops_from_refl)
next
  case (Cons job jobs)
  obtain ssn1 pt1 where one: "phase2_tasks cb job (ssn, pt) = (ssn1, pt1)"
    by (cases "phase2_tasks cb job (ssn, pt)")
  with Cons.prems have "phase2 cb jobs (ssn1, pt1) = (ssn', pt')" by (simp add: phase2_def)
  from pops_from_trans [OF phase2_tasks_pops [OF one] Cons.IH [OF this]] show ?case .
qed

lemma execute_queues_pops:
  "execute_queues cb jobs qs (ssn, pm, pt) = Inr (ssn', pm', pt') \<Longrightarrow>
     pops_from (ssn, pt) (ssn', pt')"
proof (induction qs arbitrary: ssn pm pt)
  case Nil
  then show ?case by (simp add: pops_from_refl)
next
  case (Cons queue qs)
  from Cons.prems obtain ssn1 pm1 pt1 where
    one: "phase1 cb queue (ssn, pm, pt) = Inr (ssn1, pm1, pt1)"
    by (auto split: sum.splits)
  obtain ssn2 pt2 where two: "phase2 cb jobs (ssn1, pt1) = (ssn2, pt2)"
    by (cases "phase2 cb jobs (ssn1, pt1)")
  from Cons.prems one two
  have rec: "execute_queues cb jobs qs (ssn2, pm1, pt2) = Inr (ssn', pm', pt')" by simp
  from pops_from_trans [OF pops_from_trans [OF phase1_pops [OF one] phase2_pops [OF two]]
      Cons.IH [OF rec]]
  show ?case .
qed

lemma update_entries:
  "(a, b) \<in> set (AList.update k v al) \<Longrightarrow> (a, b) = (k, v) \<or> (a, b) \<in> set al"
  by (induction al) (auto split: if_splits)

lemma foldl_Push: "foldl Push q xs = q @ xs"
  by (induction xs arbitrary: q) (simp_all add: Push_def)

lemma collect_job_tasks:
  assumes "(uid, q) \<in> set (preemptorTasks (collect_job cb ssn c k))"
  shows "(uid, q) \<in> set (preemptorTasks c) \<or>
         uid = JobUID (Jobs ssn k) \<and> q = TaskStatusIndex (Jobs ssn k) Pending"
  using assms
  by (auto simp: collect_job_def Let_def foldl_Push split: if_splits option.splits
        dest: update_entries)

lemma collect_tasks:
  assumes "(uid, q) \<in> set (preemptorTasks (collect cb ssn))"
  shows "\<exists>k \<in> set (JobKeys ssn). uid = JobUID (Jobs ssn k) \<and> q = TaskStatusIndex (Jobs ssn k) Pending"
proof -
  have "(uid, q) \<in> set (preemptorTasks (foldl (collect_job cb ssn) c ks)) \<Longrightarrow>
        (uid, q) \<in> set (preemptorTasks c) \<or>
        (\<exists>k \<in> set ks. uid = JobUID (Jobs ssn k) \<and> q = TaskStatusIndex (Jobs ssn k) Pending)"
    for c ks
  proof (induction ks arbitrary: c)
    case Nil
    then show ?case by simp
  next
    case (Cons k ks)
    from Cons.prems have "(uid, q) \<in> set (preemptorTasks (foldl (collect_job cb ssn) (collect_job cb ssn c k) ks))"
      by simp
    from Cons.IH [OF this] collect_job_tasks [of uid q cb ssn c k] show ?case by auto
  qed
  from this [of "\<lparr>preemptorsMap = [], preemptorTasks = [], underRequest = [], queues = []\<rparr>" "JobKeys ssn"]
    assms
  show ?thesis by (simp add: collect_def)
qed

section \<open>Execute returns\<close>

lemma queues_known_mono:
  assumes "queues_known ssn pm pt"
    and "\<And>k. JobUID (Jobs ssn' k) = JobUID (Jobs ssn k)"
    and "dom (map_of pt) \<subseteq> dom (map_of pt')"
  shows "queues_known ssn' pm pt'"
  unfolding queues_known_def
proof (intro ballI)
  fix entry j
  assume "entry \<in> set pm" "j \<in> set (snd entry)"
  with assms(1) have "JobUID (Jobs ssn j) \<in> dom (map_of pt)"
    unfolding queues_known_def by blast
  with assms(2) [of j] assms(3) show "JobUID (Jobs ssn' j) \<in> dom (map_of pt')"
    by (simp add: subsetD)
qed

lemma queues_known_update:
  assumes "queues_known ssn pm pt" and "\<forall>j \<in> set js. JobUID (Jobs ssn j) \<in> dom (map_of pt)"
  shows "queues_known ssn (AList.update q js pm) pt"
  unfolding queues_known_def
proof (intro ballI)
  fix entry j
  assume e: "entry \<in> set (AList.update q js pm)" and j: "j \<in> set (snd entry)"
  from e have "(fst entry, snd entry) \<in> set (AList.update q js pm)" by simp
  from update_entries [OF this] have "snd entry = js \<or> entry \<in> set pm" by auto
  with assms j show "JobUID (Jobs ssn j) \<in> dom (map_of pt)"
    unfolding queues_known_def by blast
qed

lemma queues_known_lookup:
  assumes "queues_known ssn pm pt" and "map_of pm q = Some js" and "j \<in> set js"
  shows "JobUID (Jobs ssn j) \<in> dom (map_of pt)"
proof -
  from assms(2) have "(q, js) \<in> set pm" by (rule map_of_SomeD)
  with assms(1,3) show ?thesis unfolding queues_known_def by force
qed

lemma phase1_job_returns:
  assumes inv: "queues_known ssn pm pt"
    and j: "JobUID (Jobs ssn j) \<in> dom (map_of pt)"
    and rest: "\<forall>k \<in> set rest. JobUID (Jobs ssn k) \<in> dom (map_of pt)"
  shows "\<exists>ssn' pm' pt'. phase1_job cb queue j rest (ssn, pm, pt) = Inr (ssn', pm', pt') \<and>
           queues_known ssn' pm' pt'"
proof -
  let ?ssn0 = "ssn\<lparr>calls := calls ssn @ [PopJob j]\<rparr>"
  let ?pm1 = "AList.update (QueueUID queue) rest pm"
  from j have "JobUID (Jobs ?ssn0 j) \<in> dom (map_of pt)" by simp
  from phase1_tasks_returns [OF this, of cb "NewStatement ?ssn0" False]
  obtain ssn1 stmt1 pt1 a1 where
    inner: "phase1_tasks cb j (?ssn0, NewStatement ?ssn0, pt, False) = Inr (ssn1, stmt1, pt1, a1)"
    and grow: "dom (map_of pt) \<subseteq> dom (map_of pt1)" by blast
  from phase1_tasks_frame [OF inner]
  have frame: "\<And>k. JobUID (Jobs ssn1 k) = JobUID (Jobs ssn k)" "openJobs stmt1 = Jobs ssn"
    by (simp_all add: same_frame_def NewStatement_def)
  have known1: "queues_known ssn ?pm1 pt" using inv rest by (rule queues_known_update)
  from j rest have "\<forall>k \<in> set (Push rest j). JobUID (Jobs ssn k) \<in> dom (map_of pt)"
    by (simp add: Push_def)
  from queues_known_update [OF known1 this]
  have known2: "queues_known ssn (AList.update (QueueUID queue) (Push rest j) ?pm1) pt" .
  show ?thesis
  proof (cases "JobPipelined cb (Jobs ssn1 j)")
    case False
    with inner have "phase1_job cb queue j rest (ssn, pm, pt) = Inr (Discard ssn1 stmt1, ?pm1, pt1)"
      by (simp add: phase1_job_def Let_def)
    moreover have "queues_known (Discard ssn1 stmt1) ?pm1 pt1"
      by (rule queues_known_mono [OF known1 _ grow]) (simp add: Discard_def frame(2))
    ultimately show ?thesis by blast
  next
    case True
    show ?thesis
    proof (cases a1)
      case False
      with inner True
      have "phase1_job cb queue j rest (ssn, pm, pt) = Inr (Commit ssn1 stmt1, ?pm1, pt1)"
        by (simp add: phase1_job_def Let_def)
      moreover have "queues_known (Commit ssn1 stmt1) ?pm1 pt1"
        by (rule queues_known_mono [OF known1 _ grow]) (simp add: Commit_def frame(1))
      ultimately show ?thesis by blast
    next
      case a1: True
      let ?ssn2 = "Commit ssn1 stmt1"
      let ?ssn' = "?ssn2\<lparr>calls := calls ?ssn2 @ [PushJob j]\<rparr>"
      let ?pm' = "AList.update (QueueUID queue) (Push rest j) ?pm1"
      from inner True a1
      have "phase1_job cb queue j rest (ssn, pm, pt) = Inr (?ssn', ?pm', pt1)"
        by (simp add: phase1_job_def Let_def)
      moreover have "queues_known ?ssn' ?pm' pt1"
        by (rule queues_known_mono [OF known2 _ grow]) (simp add: Commit_def frame(1))
      ultimately show ?thesis by blast
    qed
  qed
qed

lemma Pop_set: "Pop lessFn x xs = (m, r) \<Longrightarrow> insert m (set r) = insert x (set xs)"
proof -
  assume "Pop lessFn x xs = (m, r)"
  from Pop_mset [OF this] have "set_mset (add_mset m (mset r)) = set_mset (add_mset x (mset xs))"
    by simp
  then show ?thesis by simp
qed

lemma phase1_returns:
  "queues_known ssn pm pt \<Longrightarrow>
     \<exists>ssn' pm' pt'. phase1 cb queue (ssn, pm, pt) = Inr (ssn', pm', pt') \<and>
        queues_known ssn' pm' pt'"
proof (induction cb queue "(ssn, pm, pt)" arbitrary: ssn pm pt rule: phase1.induct)
  case (1 cb queue ssn pm pt)
  show ?case
  proof (cases "map_of pm (QueueUID queue)")
    case None
    with "1.prems" show ?thesis by simp
  next
    case (Some q)
    show ?thesis
    proof (cases q)
      case Nil
      with "1.prems" Some show ?thesis by simp
    next
      case (Cons j js)
      obtain preemptorJob rest where
        pop: "Pop (\<lambda>l r. JobOrderFn cb (Jobs ssn l) (Jobs ssn r)) j js = (preemptorJob, rest)"
        by (cases "Pop (\<lambda>l r. JobOrderFn cb (Jobs ssn l) (Jobs ssn r)) j js")
      from Pop_set [OF pop] have "preemptorJob \<in> set (j # js)" "set rest \<subseteq> set (j # js)"
        by auto
      with queues_known_lookup [OF "1.prems" Some [unfolded Cons]]
      have "JobUID (Jobs ssn preemptorJob) \<in> dom (map_of pt)"
        "\<forall>k \<in> set rest. JobUID (Jobs ssn k) \<in> dom (map_of pt)" by blast+
      from phase1_job_returns [OF "1.prems" this]
      obtain ssn1 pm1 pt1 where
        body: "phase1_job cb queue preemptorJob rest (ssn, pm, pt) = Inr (ssn1, pm1, pt1)"
        and known: "queues_known ssn1 pm1 pt1" by blast
      from "1.hyps" [OF Some Cons pop [symmetric] body known]
      obtain ssn' pm' pt' where "phase1 cb queue (ssn1, pm1, pt1) = Inr (ssn', pm', pt')"
        "queues_known ssn' pm' pt'" by blast
      with Some Cons pop body show ?thesis by simp
    qed
  qed
qed

lemma phase2_tasks_known:
  "phase2_tasks cb job (ssn, pt) = (ssn', pt') \<Longrightarrow>
     (\<forall>k. JobUID (Jobs ssn' k) = JobUID (Jobs ssn k)) \<and> dom (map_of pt) \<subseteq> dom (map_of pt')"
proof (induction cb job "(ssn, pt)" arbitrary: ssn pt rule: phase2_tasks.induct)
  case (1 cb job ssn pt)
  let ?uid = "JobUID (Jobs ssn job)"
  show ?case
  proof (cases "map_of pt ?uid")
    case None
    with "1.prems" show ?thesis by simp
  next
    case (Some q)
    show ?thesis
    proof (cases q)
      case Nil
      with "1.prems" Some show ?thesis by simp
    next
      case (Cons t ts)
      obtain preemptor rest where pop: "Pop (TaskOrderFn cb) t ts = (preemptor, rest)"
        by (cases "Pop (TaskOrderFn cb) t ts")
      let ?ssn0 = "ssn\<lparr>calls := calls ssn @ [PopTask preemptor]\<rparr>"
      let ?pt1 = "AList.update ?uid rest pt"
      obtain a ssn1 stmt1 where pre:
        "preempt cb ?ssn0 (NewStatement ?ssn0) preemptor (Some (intra_job_filter preemptor))
           = (a, ssn1, stmt1)"
        by (cases "preempt cb ?ssn0 (NewStatement ?ssn0) preemptor (Some (intra_job_filter preemptor))")
          auto
      from preempt_frame [OF pre]
      have uid1: "\<And>k. JobUID (Jobs (Commit ssn1 stmt1) k) = JobUID (Jobs ssn k)"
        by (simp add: same_frame_def Commit_def)
      have grow: "dom (map_of pt) \<subseteq> dom (map_of ?pt1)" by (rule dom_update_grows)
      show ?thesis
      proof (cases a)
        case False
        with "1.prems" Some Cons pop pre have "ssn' = Commit ssn1 stmt1" "pt' = ?pt1" by simp_all
        with uid1 grow show ?thesis by simp
      next
        case True
        with "1.prems" Some Cons pop pre
        have rec: "phase2_tasks cb job (Commit ssn1 stmt1, ?pt1) = (ssn', pt')" by simp
        from True have nf: "\<not> \<not> a" by simp
        note ih = "1.hyps" [OF Some Cons pop [symmetric] pre [symmetric] refl nf rec]
        from ih uid1 have "\<forall>k. JobUID (Jobs ssn' k) = JobUID (Jobs ssn k)" by simp
        moreover from ih grow have "dom (map_of pt) \<subseteq> dom (map_of pt')"
          by (blast intro: order_trans)
        ultimately show ?thesis by blast
      qed
    qed
  qed
qed

lemma phase2_known:
  "phase2 cb jobs (ssn, pt) = (ssn', pt') \<Longrightarrow> queues_known ssn pm pt \<Longrightarrow>
     queues_known ssn' pm pt'"
proof (induction jobs arbitrary: ssn pt)
  case Nil
  then show ?case by (simp add: phase2_def)
next
  case (Cons job jobs)
  obtain ssn1 pt1 where one: "phase2_tasks cb job (ssn, pt) = (ssn1, pt1)"
    by (cases "phase2_tasks cb job (ssn, pt)")
  with Cons.prems(1) have rest: "phase2 cb jobs (ssn1, pt1) = (ssn', pt')" by (simp add: phase2_def)
  from phase2_tasks_known [OF one] have same: "\<And>k. JobUID (Jobs ssn1 k) = JobUID (Jobs ssn k)"
    and grow: "dom (map_of pt) \<subseteq> dom (map_of pt1)" by simp_all
  have "queues_known ssn1 pm pt1"
    by (rule queues_known_mono [OF Cons.prems(2) same grow])
  from Cons.IH [OF rest this] show ?case .
qed

lemma execute_queues_returns:
  "queues_known ssn pm pt \<Longrightarrow>
     \<exists>ssn' pm' pt'. execute_queues cb jobs qs (ssn, pm, pt) = Inr (ssn', pm', pt')"
proof (induction qs arbitrary: ssn pm pt)
  case Nil
  then show ?case by simp
next
  case (Cons queue qs)
  from phase1_returns [OF Cons.prems] obtain ssn1 pm1 pt1 where
    one: "phase1 cb queue (ssn, pm, pt) = Inr (ssn1, pm1, pt1)" and k1: "queues_known ssn1 pm1 pt1"
    by blast
  obtain ssn2 pt2 where two: "phase2 cb jobs (ssn1, pt1) = (ssn2, pt2)"
    by (cases "phase2 cb jobs (ssn1, pt1)")
  from Cons.IH [OF phase2_known [OF two k1]] one two show ?case by simp
qed

lemma collect_job_known:
  assumes "queues_known ssn (preemptorsMap c) (preemptorTasks c)"
  shows "queues_known ssn (preemptorsMap (collect_job cb ssn c k)) (preemptorTasks (collect_job cb ssn c k))"
proof -
  let ?job = "Jobs ssn k"
  let ?pt' = "AList.update (JobUID ?job) (foldl Push [] (TaskStatusIndex ?job Pending)) (preemptorTasks c)"
  let ?q = "case map_of (preemptorsMap c) (Queue ?job) of None \<Rightarrow> [] | Some q \<Rightarrow> q"
  have grow: "dom (map_of (preemptorTasks c)) \<subseteq> dom (map_of ?pt')" by (rule dom_update_grows)
  from assms have k0: "queues_known ssn (preemptorsMap c) ?pt'"
    by (rule queues_known_mono) (simp_all add: grow)
  have old: "\<forall>j \<in> set ?q. JobUID (Jobs ssn j) \<in> dom (map_of ?pt')"
  proof (cases "map_of (preemptorsMap c) (Queue ?job)")
    case None
    then show ?thesis by simp
  next
    case (Some q)
    with queues_known_lookup [OF k0 Some] show ?thesis by simp
  qed
  have "JobUID ?job \<in> dom (map_of ?pt')" by (simp add: update_conv')
  with old have "\<forall>j \<in> set (Push ?q k). JobUID (Jobs ssn j) \<in> dom (map_of ?pt')"
    by (simp add: Push_def)
  from queues_known_update [OF k0 this]
  have new: "queues_known ssn (AList.update (Queue ?job) (Push ?q k) (preemptorsMap c)) ?pt'" .
  show ?thesis
    using assms new by (simp add: collect_job_def Let_def split: option.splits)
qed

lemma collect_known:
  "queues_known ssn (preemptorsMap (collect cb ssn)) (preemptorTasks (collect cb ssn))"
proof -
  have "queues_known ssn (preemptorsMap c) (preemptorTasks c) \<Longrightarrow>
        queues_known ssn (preemptorsMap (foldl (collect_job cb ssn) c ks))
          (preemptorTasks (foldl (collect_job cb ssn) c ks))" for c ks
    by (induction ks arbitrary: c) (simp_all add: collect_job_known)
  then show ?thesis by (simp add: collect_def queues_known_def)
qed

text \<open>
  \<open>Execute\<close> returns for every session, every choice of policies and every order of the
  queues: the loops end, and the nil pointer of line 107 is never met.
\<close>

lemma Execute_returns: "\<exists>ssn'. Execute cb order ssn = Inr ssn'"
proof -
  let ?c = "collect cb ssn"
  from execute_queues_returns [OF collect_known]
  obtain ssn' pm' pt' where
    "execute_queues cb (underRequest ?c) order (ssn, preemptorsMap ?c, preemptorTasks ?c)
       = Inr (ssn', pm', pt')" by blast
  then show ?thesis by (simp add: Execute_def Let_def)
qed

section \<open>Every pending task is popped at most once\<close>

text \<open>
  Claim C10. The task queues of the preemptor jobs are filled once, in the collection
  phase, with the pending tasks of those jobs, and both phases pop from these same
  queues. In every round of the first phase, also one whose statement is discarded, in the
  first phase for a queue, in the second phase for a job, and over the loop over the queues
  in any order, the preemptors popped and the tasks still waiting make up exactly the tasks
  that waited before: a task that was popped is not put back. So, whatever the order in
  which the queues are visited and whatever the order in which the session names its jobs,
  \<open>Execute\<close> returns with the preemptors popped among the tasks collected, each at most as
  often as it was collected, and if no task was collected twice, no task is popped twice.
\<close>

theorem tasks_popped_at_most_once:
  "(\<exists>ssn'. Execute cb order ssn = Inr ssn'
      \<and> mset (popped (new_calls ssn ssn')) \<subseteq># mset (queued (preemptorTasks (collect cb ssn)))
      \<and> (distinct (queued (preemptorTasks (collect cb ssn))) \<longrightarrow>
           distinct (popped (new_calls ssn ssn'))))
   \<and> (\<forall>entry \<in> set (preemptorTasks (collect cb ssn)).
        \<exists>k \<in> set (JobKeys ssn). fst entry = JobUID (Jobs ssn k) \<and>
           snd entry = TaskStatusIndex (Jobs ssn k) Pending)
   \<and> (phase1_job cb queue j rest (ssn0, pm, pt) = Inr (ssn1, pm1, pt1) \<longrightarrow>
        mset (popped (new_calls ssn0 ssn1)) + mset (queued pt1) = mset (queued pt))
   \<and> (phase1 cb queue (ssn0, pm, pt) = Inr (ssn1, pm1, pt1) \<longrightarrow>
        mset (popped (new_calls ssn0 ssn1)) + mset (queued pt1) = mset (queued pt))
   \<and> (phase2_tasks cb job (ssn0, pt) = (ssn1, pt1) \<longrightarrow>
        mset (popped (new_calls ssn0 ssn1)) + mset (queued pt1) = mset (queued pt))
   \<and> (execute_queues cb jobs qs (ssn0, pm, pt) = Inr (ssn1, pm1, pt1) \<longrightarrow>
        mset (popped (new_calls ssn0 ssn1)) + mset (queued pt1) = mset (queued pt))"
proof -
  let ?c = "collect cb ssn"
  have whole: "\<exists>ssn'. Execute cb order ssn = Inr ssn'
      \<and> mset (popped (new_calls ssn ssn')) \<subseteq># mset (queued (preemptorTasks ?c))
      \<and> (distinct (queued (preemptorTasks ?c)) \<longrightarrow> distinct (popped (new_calls ssn ssn')))"
  proof -
    from Execute_returns obtain ssn' where run: "Execute cb order ssn = Inr ssn'" by blast
    then obtain pm' pt' where
      "execute_queues cb (underRequest ?c) order
         (ssn, preemptorsMap ?c, preemptorTasks ?c) = Inr (ssn', pm', pt')"
      by (auto simp: Execute_def Let_def split: sum.splits)
    from pops_from_new_calls [OF execute_queues_pops [OF this]]
    have eq: "mset (popped (new_calls ssn ssn')) + mset (queued pt')
                = mset (queued (preemptorTasks ?c))" .
    then have sub: "mset (popped (new_calls ssn ssn')) \<subseteq># mset (queued (preemptorTasks ?c))"
      by (metis mset_subset_eq_add_left)
    have dist: "distinct (popped (new_calls ssn ssn'))" if d: "distinct (queued (preemptorTasks ?c))"
    proof -
      from eq have "mset (popped (new_calls ssn ssn') @ queued pt') = mset (queued (preemptorTasks ?c))"
        by simp
      from mset_eq_imp_distinct_iff [OF this] d
      have "distinct (popped (new_calls ssn ssn') @ queued pt')" by blast
      then show ?thesis by simp
    qed
    from run sub dist show ?thesis by blast
  qed
  have entries: "\<forall>entry \<in> set (preemptorTasks ?c).
        \<exists>k \<in> set (JobKeys ssn). fst entry = JobUID (Jobs ssn k) \<and>
           snd entry = TaskStatusIndex (Jobs ssn k) Pending"
  proof
    fix entry
    assume "entry \<in> set (preemptorTasks ?c)"
    then have "(fst entry, snd entry) \<in> set (preemptorTasks ?c)" by simp
    from collect_tasks [OF this]
    show "\<exists>k \<in> set (JobKeys ssn). fst entry = JobUID (Jobs ssn k) \<and>
           snd entry = TaskStatusIndex (Jobs ssn k) Pending" .
  qed
  have round: "phase1_job cb queue j rest (ssn0, pm, pt) = Inr (ssn1, pm1, pt1) \<longrightarrow>
        mset (popped (new_calls ssn0 ssn1)) + mset (queued pt1) = mset (queued pt)"
    using pops_from_new_calls [OF phase1_job_pops] by blast
  have first: "phase1 cb queue (ssn0, pm, pt) = Inr (ssn1, pm1, pt1) \<longrightarrow>
        mset (popped (new_calls ssn0 ssn1)) + mset (queued pt1) = mset (queued pt)"
    using pops_from_new_calls [OF phase1_pops] by blast
  have second: "phase2_tasks cb job (ssn0, pt) = (ssn1, pt1) \<longrightarrow>
        mset (popped (new_calls ssn0 ssn1)) + mset (queued pt1) = mset (queued pt)"
    using pops_from_new_calls [OF phase2_tasks_pops] by blast
  have all_queues: "execute_queues cb jobs qs (ssn0, pm, pt) = Inr (ssn1, pm1, pt1) \<longrightarrow>
        mset (popped (new_calls ssn0 ssn1)) + mset (queued pt1) = mset (queued pt)"
    using pops_from_new_calls [OF execute_queues_pops] by blast
  show ?thesis by (intro conjI whole entries round first second all_queues)
qed

theorem tasks_popped_at_most_once_witness:
  "Execute priorityCallbacks [queue1] ssnB = Inr (projr (Execute priorityCallbacks [queue1] ssnB))
   \<and> queue_order (collect priorityCallbacks ssnB) [queue1]
   \<and> new_calls ssnB (projr (Execute priorityCallbacks [queue1] ssnB))
       = [PopJob ''job1'', PopTask p1, CallDiscard]
   \<and> queued (preemptorTasks (collect priorityCallbacks ssnB)) = [p1]
   \<and> mset (popped (new_calls ssnB (projr (Execute priorityCallbacks [queue1] ssnB))))
       \<subseteq># mset (queued (preemptorTasks (collect priorityCallbacks ssnB)))
   \<and> distinct (popped (new_calls ssnB (projr (Execute priorityCallbacks [queue1] ssnB))))
   \<and> map fst (queues (collect priorityCallbacks ssnQ)) = [''q2'', ''q1'']
   \<and> queue_order (collect priorityCallbacks ssnQ) [queue1, queue2]
   \<and> Execute priorityCallbacks [queue1, queue2] ssnQ
       = Inr (projr (Execute priorityCallbacks [queue1, queue2] ssnQ))
   \<and> new_calls ssnQ (projr (Execute priorityCallbacks [queue1, queue2] ssnQ))
       = [PopJob ''job1'', PopTask p1, CallDiscard, PopTask p3, CallCommit,
          PopJob ''job3'', CallDiscard]
   \<and> queued (preemptorTasks (collect priorityCallbacks ssnQ)) = [p3, p1]
   \<and> distinct (popped (new_calls ssnQ (projr (Execute priorityCallbacks [queue1, queue2] ssnQ))))"
proof -
  let ?run = "Execute priorityCallbacks [queue1] ssnB"
  let ?tasks = "queued (preemptorTasks (collect priorityCallbacks ssnB))"
  have trace: "new_calls ssnB (projr ?run) = [PopJob ''job1'', PopTask p1, CallDiscard]"
    by code_simp
  have tasks: "?tasks = [p1]" by code_simp
  then have d: "distinct ?tasks"
    by (simp only: distinct.simps distinct_singleton list.set empty_iff simp_thms)
  have "map snd (queues (collect priorityCallbacks ssnB)) = [queue1]" by code_simp
  then have ord: "queue_order (collect priorityCallbacks ssnB) [queue1]"
    by (simp only: queue_order_def)
  from tasks_popped_at_most_once [of priorityCallbacks "[queue1]" ssnB, THEN conjunct1]
  obtain ssn' where run: "?run = Inr ssn'"
    and sub': "mset (popped (new_calls ssnB ssn')) \<subseteq># mset ?tasks"
    and dist': "distinct ?tasks \<longrightarrow> distinct (popped (new_calls ssnB ssn'))"
    by blast
  from run have ssn': "ssn' = projr ?run" by simp
  from run have ok: "?run = Inr (projr ?run)" unfolding ssn' [symmetric] .
  from sub' have sub: "mset (popped (new_calls ssnB (projr ?run))) \<subseteq># mset ?tasks"
    unfolding ssn' .
  from dist' d have dist: "distinct (popped (new_calls ssnB (projr ?run)))"
    unfolding ssn' by blast
  let ?runQ = "Execute priorityCallbacks [queue1, queue2] ssnQ"
  let ?tasksQ = "queued (preemptorTasks (collect priorityCallbacks ssnQ))"
  have named: "map fst (queues (collect priorityCallbacks ssnQ)) = [''q2'', ''q1'']"
    by code_simp
  have "map snd (queues (collect priorityCallbacks ssnQ)) = [queue2, queue1]" by code_simp
  then have ordQ: "queue_order (collect priorityCallbacks ssnQ) [queue1, queue2]"
    by (simp add: queue_order_def)
  have traceQ: "new_calls ssnQ (projr ?runQ)
       = [PopJob ''job1'', PopTask p1, CallDiscard, PopTask p3, CallCommit,
          PopJob ''job3'', CallDiscard]"
    by code_simp
  have tasksQ: "?tasksQ = [p3, p1]" by code_simp
  have "p3 \<noteq> p1" by code_simp
  with tasksQ have dQ: "distinct ?tasksQ" by simp
  from tasks_popped_at_most_once [of priorityCallbacks "[queue1, queue2]" ssnQ, THEN conjunct1]
  obtain ssnQ' where runQ: "?runQ = Inr ssnQ'"
    and distQ': "distinct ?tasksQ \<longrightarrow> distinct (popped (new_calls ssnQ ssnQ'))"
    by blast
  from runQ have ssnQ': "ssnQ' = projr ?runQ" by simp
  from runQ have okQ: "?runQ = Inr (projr ?runQ)" unfolding ssnQ' [symmetric] .
  from distQ' dQ have distQ: "distinct (popped (new_calls ssnQ (projr ?runQ)))"
    unfolding ssnQ' by blast
  show ?thesis by (intro conjI ok ord trace tasks sub dist named ordQ okQ traceQ tasksQ distQ)
qed

end
